theory Spec2Isabelle
  imports Complex_Main "HOL-Library.Word"
begin

unbundle bit_operations_syntax

section \<open>The anti-repetition draw pool\<close>

text \<open>\<^verbatim>\<open>src/js/constants.js\<close>, lines 362 to 422: the classes \<^verbatim>\<open>IndexDrawPool\<close> and
  \<^verbatim>\<open>IndexDrawPoolManager\<close>.\<close>

text \<open>
  \<^verbatim>\<open>class IndexDrawPool\<close> holds two arrays of indexes and the length of the
  no-repeat window. The arrays are lists here; \<^verbatim>\<open>dontRepeatFor\<close> is an integer
  (the manager passes \<^verbatim>\<open>Math.min(dontRepeatFor, sourceSize-1)\<close>, which is
  \<open>-1\<close> for an empty source).
\<close>

record pool =
  draw :: "nat list"
  discard :: "nat list"
  dontRepeatFor :: int

text \<open>
  \<^verbatim>\<open>constructor(sourceSize, dontRepeatFor = 8)\<close>:
  \<^verbatim>\<open>this.draw = [...Array(sourceSize).keys()]; this.discard = []\<close>.
\<close>

definition IndexDrawPool_constructor :: "nat \<Rightarrow> int \<Rightarrow> pool" where
  "IndexDrawPool_constructor sourceSize w =
     \<lparr>draw = [0..<sourceSize], discard = [], dontRepeatFor = w\<rparr>"

text \<open>\<^verbatim>\<open>a.splice(i, 1)\<close> for \<open>i < a.length\<close>: the array without its \<open>i\<close>-th element.\<close>

definition splice1 :: "'a list \<Rightarrow> nat \<Rightarrow> 'a list" where
  "splice1 xs i = take i xs @ drop (Suc i) xs"

text \<open>
  \<^verbatim>\<open>next(randomInteger)\<close>. The random integer is a value of the generator, an
  unsigned number, so \<^verbatim>\<open>%\<close> is \<open>mod\<close>. \<open>None\<close> is the \<^verbatim>\<open>null\<close> the method
  returns on an empty \<^verbatim>\<open>draw\<close>; the pool returned is the object after the call.
\<close>

definition IndexDrawPool_next :: "pool \<Rightarrow> nat \<Rightarrow> nat option \<times> pool" where
  "IndexDrawPool_next p randomInteger =
     (if length (draw p) = 0 then (None, p)
      else
        let randomIndex = randomInteger mod length (draw p);
            selected = draw p ! randomIndex;
            draw1 = splice1 (draw p) randomIndex;
            discard1 = discard p @ [selected]
        in if int (length discard1) > dontRepeatFor p
           then (Some selected, p\<lparr>draw := draw1 @ [hd discard1], discard := tl discard1\<rparr>)
           else (Some selected, p\<lparr>draw := draw1, discard := discard1\<rparr>))"

text \<open>Successive calls of \<^verbatim>\<open>next\<close> on one pool, with the values they return.\<close>

fun IndexDrawPool_draws :: "pool \<Rightarrow> nat list \<Rightarrow> nat option list \<times> pool" where
  "IndexDrawPool_draws p [] = ([], p)"
| "IndexDrawPool_draws p (r # rs) =
     (case IndexDrawPool_next p r of (v, p1) \<Rightarrow>
        (case IndexDrawPool_draws p1 rs of (vs, p2) \<Rightarrow> (v # vs, p2)))"

text \<open>
  \<^verbatim>\<open>class IndexDrawPoolManager\<close>: a \<^verbatim>\<open>Map\<close> from identifiers to pools.
  \<^verbatim>\<open>nextUniqueIndex(id, sourceSize, randomInteger, dontRepeatFor = 8)\<close> creates the
  pool when the key is absent, then draws from the pool stored under the key.
\<close>

type_synonym manager = "string \<rightharpoonup> pool"

definition IndexDrawPoolManager_constructor :: manager where
  "IndexDrawPoolManager_constructor = Map.empty"

definition nextUniqueIndex :: "manager \<Rightarrow> string \<Rightarrow> nat \<Rightarrow> nat \<Rightarrow> int \<Rightarrow> nat option \<times> manager" where
  "nextUniqueIndex m ident sourceSize randomInteger w =
     (let indexQueue =
            (case m ident of
               None \<Rightarrow> IndexDrawPool_constructor sourceSize (min w (int sourceSize - 1))
             | Some q \<Rightarrow> q)
      in case IndexDrawPool_next indexQueue randomInteger of
           (v, q1) \<Rightarrow> (v, m(ident \<mapsto> q1)))"

section \<open>The seeded generator\<close>

text \<open>\<^verbatim>\<open>src/js/constants.js\<close>, lines 323 to 360: the class \<^verbatim>\<open>SeededPRNG\<close>.\<close>

text \<open>
  \<^verbatim>\<open>class SeededPRNG\<close> has two Number fields. The seed is an integer (the station
  sets it to a \<^verbatim>\<open>Date.UTC\<close> value, the module creates it with 1); the index counts
  up from 0 and stays far below \<open>2 ^ 53\<close>, where \<^verbatim>\<open>index++\<close> is exact.
\<close>

record prng =
  seed :: int
  index :: nat

definition SeededPRNG_constructor :: "int \<Rightarrow> prng" where
  "SeededPRNG_constructor seed0 = \<lparr>seed = seed0, index = 0\<rparr>"

text \<open>
  \<^verbatim>\<open>generate\<close> multiplies with \<^verbatim>\<open>*\<close>, the multiplication of Numbers: the
  exact product of a 32-bit integer and \<^verbatim>\<open>0x45d9f3b\<close> can need up to 58 bits, and the
  Number that results is the product rounded to 53 significant bits, to nearest, ties to
  the even significand. \<open>ulp a\<close> is the distance of the Numbers around a magnitude
  \<open>a\<close>: 1 below \<open>2 ^ 53\<close>, doubling with every further bit.
\<close>

function ulp :: "int \<Rightarrow> int" where
  "ulp a = (if a < 9007199254740992 then 1 else 2 * ulp (a div 2))"
  by pat_completeness auto
termination
  by (relation "measure nat") auto

declare ulp.simps [simp del]

definition to_Number :: "int \<Rightarrow> int" where
  "to_Number x =
     (let a = \<bar>x\<bar>;
          u = ulp a;
          q = a div u;
          r = a mod u;
          q1 = (if 2 * r > u \<or> (2 * r = u \<and> odd q) then q + 1 else q)
      in sgn x * (q1 * u))"

text \<open>
  The bitwise operators take their operands through \<^verbatim>\<open>ToInt32\<close> or
  \<^verbatim>\<open>ToUint32\<close>, the integer modulo \<open>2 ^ 32\<close>: a 32-bit word. \<^verbatim>\<open>^\<close> returns the
  signed reading of the word, \<^verbatim>\<open>>>>\<close> shifts the unsigned one.
\<close>

definition SeededPRNG_generate :: "prng \<Rightarrow> nat" where
  "SeededPRNG_generate g =
     (let value0 = (word_of_int (seed g) :: 32 word) XOR word_of_nat (index g);
          value1 = to_Number (sint (value0 XOR drop_bit 21 value0) * 73244475);
          word1 = (word_of_int value1 :: 32 word);
          value2 = to_Number (sint (word1 XOR drop_bit 15 word1) * 73244475);
          word2 = (word_of_int value2 :: 32 word);
          value3 = word2 XOR drop_bit 13 word2
      in unat value3)"

definition SeededPRNG_next :: "prng \<Rightarrow> nat \<times> prng" where
  "SeededPRNG_next g = (SeededPRNG_generate g, g\<lparr>index := index g + 1\<rparr>)"

text \<open>The values of \<open>n\<close> successive calls of \<^verbatim>\<open>next\<close>, and the generator after them.\<close>

fun SeededPRNG_nexts :: "nat \<Rightarrow> prng \<Rightarrow> nat list \<times> prng" where
  "SeededPRNG_nexts 0 g = ([], g)"
| "SeededPRNG_nexts (Suc n) g =
     (case SeededPRNG_next g of (v, g1) \<Rightarrow>
        (case SeededPRNG_nexts n g1 of (vs, g2) \<Rightarrow> (v # vs, g2)))"

text \<open>
  \<^verbatim>\<open>toFloat(number) { return number / 0xFFFFFFFF }\<close>. The quotient is taken in the
  reals. The only use of the result is the test \<^verbatim>\<open>toFloat(randNum) * 100 < 50\<close>, and
  there the rounding of the two Number operations cannot change the outcome: the exact
  product is at least 50 for \<open>randNum \<ge> 2 ^ 31\<close> and below \<open>50 - 10 ^ -8\<close> otherwise.
\<close>

definition SeededPRNG_toFloat :: "nat \<Rightarrow> real" where
  "SeededPRNG_toFloat number = real number / 4294967295"

section \<open>Segments and the station's state\<close>

text \<open>\<^verbatim>\<open>src/js/constants.js\<close>, lines 32 to 187: the classes \<^verbatim>\<open>StationMeta\<close> and
  \<^verbatim>\<open>RadioStation\<close>.\<close>

text \<open>
  A segment descriptor of the metadata (\<^verbatim>\<open>SegmentInfo\<close>) is an object with a relative
  path, a duration, sometimes an audible duration and sometimes a list of voice-overs,
  themselves objects with a path. \<^verbatim>\<open>voiceOver\<close> is the field
  \<^verbatim>\<open>getRandomTrack\<close> assigns. Durations are whole seconds, where the arithmetic of
  Numbers is exact. A synced segment is the clone \<^verbatim>\<open>Object.assign({}, info)\<close> with
  \<^verbatim>\<open>startTimestamp\<close> and, for the talkshow and dynamic stations, \<^verbatim>\<open>isTrack\<close>.
\<close>

record path_object =
  path :: string

record segment_info = path_object +
  duration :: int
  audibleDuration :: "int option"
  voiceovers :: "path_object list option"
  voiceOver :: "path_object option"

record synced_segment = segment_info +
  startTimestamp :: int
  isTrack :: "bool option"

datatype error = TypeError

text \<open>
  What the code reads from outside the station: \<^verbatim>\<open>getDataPath()\<close> (the module
  variable \<^verbatim>\<open>lastUsedPath\<close>), \<^verbatim>\<open>Date.now()\<close> and the getter
  \<^verbatim>\<open>startTimestamp\<close>, the first instant of the current UTC month as the runtime's
  \<^verbatim>\<open>Date.UTC\<close> computes it. One value of this record is one instant of the clock.
\<close>

record env =
  lastUsedPath :: string
  now :: int
  monthStart :: int

text \<open>
  The fields of the three station classes, the \<^verbatim>\<open>fileGroups\<close> of the metadata
  object the station holds a reference to, and the module's one generator
  \<^verbatim>\<open>const PRNG = new SeededPRNG(1)\<close>, which every station reads and advances.
\<close>

record station =
  stationPath :: string
  fileGroups :: "string \<rightharpoonup> segment_info list"
  accumulatedTime :: int
  segmentIndex :: nat
  prevSegment :: "synced_segment option"
  indexDrawPools :: manager
  PRNG :: prng

type_synonym 'a result = "error + 'a"

definition getAbsolutePath :: "env \<Rightarrow> station \<Rightarrow> string \<Rightarrow> string" where
  "getAbsolutePath e s relativePath = lastUsedPath e @ stationPath s @ ''/'' @ relativePath"

text \<open>
  \<^verbatim>\<open>resolveObjectPath(object)\<close> clones the object and resolves the clone's path. On
  \<^verbatim>\<open>undefined\<close> (\<open>None\<close>: an array read out of range) reading \<^verbatim>\<open>object.path\<close>
  throws a TypeError.
\<close>

definition resolveObjectPath ::
  "env \<Rightarrow> station \<Rightarrow> 'a path_object_scheme option \<Rightarrow> 'a path_object_scheme result" where
  "resolveObjectPath e s object =
     (case object of
        None \<Rightarrow> Inl TypeError
      | Some obj \<Rightarrow> Inr (obj\<lparr>path := getAbsolutePath e s (path obj)\<rparr>))"

definition newSyncedSegment ::
  "env \<Rightarrow> station \<Rightarrow> segment_info option \<Rightarrow> int \<Rightarrow> synced_segment result" where
  "newSyncedSegment e s segmentInfo accumulated =
     (case resolveObjectPath e s segmentInfo of
        Inl err \<Rightarrow> Inl err
      | Inr segment \<Rightarrow>
          Inr \<lparr>path = path segment, duration = duration segment,
               audibleDuration = audibleDuration segment, voiceovers = voiceovers segment,
               voiceOver = voiceOver segment,
               startTimestamp = monthStart e + accumulated * 1000, isTrack = None\<rparr>)"

text \<open>\<^verbatim>\<open>segment.audibleDuration || segment.duration\<close>: an absent or zero audible
  duration is falsy.\<close>

definition audible :: "'a segment_info_scheme \<Rightarrow> int" where
  "audible segment =
     (case audibleDuration segment of
        None \<Rightarrow> duration segment
      | Some a \<Rightarrow> if a = 0 then duration segment else a)"

text \<open>
  Array reads. \<^verbatim>\<open>list[i % list.length]\<close> is \<^verbatim>\<open>list[NaN]\<close>, that is
  \<^verbatim>\<open>undefined\<close>, on an empty array; \<^verbatim>\<open>list[index]\<close> is \<^verbatim>\<open>undefined\<close> for the
  \<^verbatim>\<open>null\<close> of an exhausted pool and for an index out of range.
\<close>

definition read_mod :: "'a list \<Rightarrow> nat \<Rightarrow> 'a option" where
  "read_mod xs i = (if length xs = 0 then None else Some (xs ! (i mod length xs)))"

definition read_at :: "'a list \<Rightarrow> nat option \<Rightarrow> 'a option" where
  "read_at xs i =
     (case i of None \<Rightarrow> None | Some j \<Rightarrow> if j < length xs then Some (xs ! j) else None)"

text \<open>
  The constructors. \<^verbatim>\<open>RadioStation\<close>'s sets \<^verbatim>\<open>PRNG.seed = this.startTimestamp\<close>
  and \<^verbatim>\<open>accumulatedTime = 0\<close>; the generator's index is left as it is. The argument
  \<open>g\<close> is the module's generator at the time of the call.
\<close>

definition StaticStation_constructor ::
  "env \<Rightarrow> prng \<Rightarrow> string \<Rightarrow> (string \<rightharpoonup> segment_info list) \<Rightarrow> station" where
  "StaticStation_constructor e g p groups =
     \<lparr>stationPath = p, fileGroups = groups, accumulatedTime = 0, segmentIndex = 0,
      prevSegment = None, indexDrawPools = Map.empty, PRNG = g\<lparr>seed := monthStart e\<rparr>\<rparr>"

definition TalkshowStation_constructor ::
  "env \<Rightarrow> prng \<Rightarrow> string \<Rightarrow> (string \<rightharpoonup> segment_info list) \<Rightarrow> station" where
  "TalkshowStation_constructor e g p groups =
     \<lparr>stationPath = p, fileGroups = groups, accumulatedTime = 0, segmentIndex = 0,
      prevSegment = None, indexDrawPools = IndexDrawPoolManager_constructor,
      PRNG = g\<lparr>seed := monthStart e\<rparr>\<rparr>"

definition DynamicStation_constructor ::
  "env \<Rightarrow> prng \<Rightarrow> string \<Rightarrow> (string \<rightharpoonup> segment_info list) \<Rightarrow> station" where
  "DynamicStation_constructor e g p groups =
     \<lparr>stationPath = p, fileGroups = groups, accumulatedTime = 0, segmentIndex = 0,
      prevSegment = None, indexDrawPools = IndexDrawPoolManager_constructor,
      PRNG = g\<lparr>seed := monthStart e\<rparr>\<rparr>"

section \<open>The static station\<close>

text \<open>\<^verbatim>\<open>src/js/constants.js\<close>, lines 189 to 217: the class \<^verbatim>\<open>StaticStation\<close>.\<close>

text \<open>
  \<^verbatim>\<open>nextSegment\<close> returns the segment and leaves the station changed; a thrown
  TypeError ends the call (\<open>Inl\<close>). A missing group is \<^verbatim>\<open>undefined\<close>, and reading
  its \<^verbatim>\<open>length\<close> throws.
\<close>

definition StaticStation_nextSegment :: "env \<Rightarrow> station \<Rightarrow> (synced_segment \<times> station) result" where
  "StaticStation_nextSegment e s =
     (case fileGroups s ''track'' of
        None \<Rightarrow> Inl TypeError
      | Some segmentList \<Rightarrow>
          (case newSyncedSegment e s (read_mod segmentList (segmentIndex s)) (accumulatedTime s) of
             Inl err \<Rightarrow> Inl err
           | Inr segment \<Rightarrow>
               Inr (segment,
                    s\<lparr>segmentIndex := segmentIndex s + 1,
                      accumulatedTime := accumulatedTime s + audible segment\<rparr>)))"

text \<open>
  The loop of \<^verbatim>\<open>getSyncedSegment\<close>: \<^verbatim>\<open>while (true)\<close>, left by the
  \<^verbatim>\<open>return\<close> or by an exception. It runs forever on a station whose segments have no
  length, so its value is an option and \<open>None\<close> is the call that never returns.
\<close>

partial_function (option) StaticStation_loop ::
  "env \<Rightarrow> station \<Rightarrow> (synced_segment \<times> station) result option" where
  "StaticStation_loop e s =
     (case StaticStation_nextSegment e s of
        Inl err \<Rightarrow> Some (Inl err)
      | Inr (segment, s1) \<Rightarrow>
          if monthStart e + accumulatedTime s1 * 1000 > now e then Some (Inr (segment, s1))
          else StaticStation_loop e s1)"

definition StaticStation_getSyncedSegment ::
  "env \<Rightarrow> station \<Rightarrow> (synced_segment \<times> station) result option" where
  "StaticStation_getSyncedSegment e s =
     StaticStation_loop e (s\<lparr>segmentIndex := 0, accumulatedTime := 0\<rparr>)"

section \<open>The talkshow station\<close>

text \<open>\<^verbatim>\<open>src/js/constants.js\<close>, lines 219 to 265: the class \<^verbatim>\<open>TalkshowStation\<close>.\<close>

definition TalkshowStation_getTrack :: "station \<Rightarrow> segment_info option result" where
  "TalkshowStation_getTrack s =
     (case fileGroups s ''track'' of
        None \<Rightarrow> Inl TypeError
      | Some segmentList \<Rightarrow> Inr (read_mod segmentList (segmentIndex s)))"

text \<open>
  \<^verbatim>\<open>transitions[this.indexDrawPools.nextUniqueIndex("id", transitions.length, PRNG.next())]\<close>:
  \<^verbatim>\<open>transitions.length\<close> is read before \<^verbatim>\<open>PRNG.next()\<close> is called.
\<close>

definition TalkshowStation_getRandomTransition :: "station \<Rightarrow> (segment_info option \<times> station) result" where
  "TalkshowStation_getRandomTransition s =
     (case fileGroups s ''id'' of
        None \<Rightarrow> Inl TypeError
      | Some transitions \<Rightarrow>
          (case SeededPRNG_next (PRNG s) of (randomInteger, g1) \<Rightarrow>
             (case nextUniqueIndex (indexDrawPools s) ''id'' (length transitions) randomInteger 8 of
                (i, m1) \<Rightarrow> Inr (read_at transitions i, s\<lparr>indexDrawPools := m1, PRNG := g1\<rparr>))))"

definition TalkshowStation_nextSegment :: "env \<Rightarrow> station \<Rightarrow> (synced_segment \<times> station) result" where
  "TalkshowStation_nextSegment e s =
     (let is_track = (case prevSegment s of None \<Rightarrow> True | Some prev \<Rightarrow> isTrack prev \<noteq> Some True)
      in case (if is_track then map_sum id (\<lambda>info. (info, s)) (TalkshowStation_getTrack s)
               else TalkshowStation_getRandomTransition s) of
           Inl err \<Rightarrow> Inl err
         | Inr (segmentInfo, s1) \<Rightarrow>
             (case newSyncedSegment e s1 segmentInfo (accumulatedTime s1) of
                Inl err \<Rightarrow> Inl err
              | Inr segment0 \<Rightarrow>
                  let segment = segment0\<lparr>isTrack := Some is_track\<rparr>
                  in Inr (segment,
                          s1\<lparr>segmentIndex := (if is_track then segmentIndex s1 + 1 else segmentIndex s1),
                             prevSegment := Some segment,
                             accumulatedTime := accumulatedTime s1 + audible segment\<rparr>)))"

partial_function (option) TalkshowStation_loop ::
  "env \<Rightarrow> station \<Rightarrow> (synced_segment \<times> station) result option" where
  "TalkshowStation_loop e s =
     (case TalkshowStation_nextSegment e s of
        Inl err \<Rightarrow> Some (Inl err)
      | Inr (segment, s1) \<Rightarrow>
          if monthStart e + accumulatedTime s1 * 1000 > now e then Some (Inr (segment, s1))
          else TalkshowStation_loop e s1)"

text \<open>\<^verbatim>\<open>PRNG.index = 0; this.segmentIndex = 0; this.accumulatedTime = 0;
  this.prevSegment = null\<close>, then the loop.\<close>

definition TalkshowStation_getSyncedSegment ::
  "env \<Rightarrow> station \<Rightarrow> (synced_segment \<times> station) result option" where
  "TalkshowStation_getSyncedSegment e s =
     TalkshowStation_loop e
       (s\<lparr>PRNG := (PRNG s)\<lparr>index := 0\<rparr>, segmentIndex := 0, accumulatedTime := 0,
          prevSegment := None\<rparr>)"

section \<open>The dynamic station\<close>

text \<open>\<^verbatim>\<open>src/js/constants.js\<close>, lines 267 to 323: the class \<^verbatim>\<open>DynamicStation\<close>.\<close>

text \<open>
  \<^verbatim>\<open>getRandomTrack(randNum)\<close>. \<^verbatim>\<open>selectedTrack\<close> is the element of the metadata's
  array itself, so the assignment to \<^verbatim>\<open>selectedTrack.voiceOver\<close> is an update of
  \<^verbatim>\<open>fileGroups.track\<close>. An array is truthy, also an empty one, so every track with a
  \<^verbatim>\<open>voiceovers\<close> list takes the branch and calls \<^verbatim>\<open>PRNG.next()\<close>. Reading
  \<^verbatim>\<open>selectedTrack.voiceovers\<close> of \<^verbatim>\<open>undefined\<close> throws.
\<close>

definition DynamicStation_getRandomTrack ::
  "env \<Rightarrow> station \<Rightarrow> nat \<Rightarrow> (segment_info \<times> station) result" where
  "DynamicStation_getRandomTrack e s randNum =
     (case fileGroups s ''track'' of
        None \<Rightarrow> Inl TypeError
      | Some tracks \<Rightarrow>
          (case nextUniqueIndex (indexDrawPools s) ''track'' (length tracks) randNum 8 of
             (None, m1) \<Rightarrow> Inl TypeError
           | (Some i, m1) \<Rightarrow>
               (case read_at tracks (Some i) of
                  None \<Rightarrow> Inl TypeError
                | Some selectedTrack \<Rightarrow>
                    (case voiceovers selectedTrack of
                       None \<Rightarrow> Inr (selectedTrack, s\<lparr>indexDrawPools := m1\<rparr>)
                     | Some vs \<Rightarrow>
                         (case SeededPRNG_next (PRNG s) of (r, g1) \<Rightarrow>
                            (case resolveObjectPath e s (read_mod vs r) of
                               Inl err \<Rightarrow> Inl err
                             | Inr vo \<Rightarrow>
                                 let selectedTrack1 = selectedTrack\<lparr>voiceOver := Some vo\<rparr>
                                 in Inr (selectedTrack1,
                                         s\<lparr>indexDrawPools := m1, PRNG := g1,
                                           fileGroups := (fileGroups s)
                                             (''track'' \<mapsto> tracks[i := selectedTrack1])\<rparr>)))))))"

definition DynamicStation_getRandomTransition ::
  "station \<Rightarrow> nat \<Rightarrow> (segment_info option \<times> station) result" where
  "DynamicStation_getRandomTransition s randNum =
     (let select = randNum mod 2;
          transitionType = (if select = 0 then ''id'' else ''mono_solo'')
      in case fileGroups s transitionType of
           None \<Rightarrow> Inl TypeError
         | Some transitions \<Rightarrow>
             (case nextUniqueIndex (indexDrawPools s) transitionType (length transitions) randNum 8 of
                (i, m1) \<Rightarrow> Inr (read_at transitions i, s\<lparr>indexDrawPools := m1\<rparr>)))"

definition DynamicStation_nextSegment :: "env \<Rightarrow> station \<Rightarrow> (synced_segment \<times> station) result" where
  "DynamicStation_nextSegment e s =
     (let randNum = fst (SeededPRNG_next (PRNG s));
          s0 = s\<lparr>PRNG := snd (SeededPRNG_next (PRNG s))\<rparr>;
          randPercent = SeededPRNG_toFloat randNum * 100;
          is_track = (case prevSegment s0 of
                        None \<Rightarrow> True
                      | Some prev \<Rightarrow> isTrack prev \<noteq> Some True \<or> randPercent < 50)
      in case (if is_track
               then map_sum id (map_prod Some id) (DynamicStation_getRandomTrack e s0 randNum)
               else DynamicStation_getRandomTransition s0 randNum) of
           Inl err \<Rightarrow> Inl err
         | Inr (segmentInfo, s1) \<Rightarrow>
             (case newSyncedSegment e s1 segmentInfo (accumulatedTime s1) of
                Inl err \<Rightarrow> Inl err
              | Inr segment0 \<Rightarrow>
                  let segment = segment0\<lparr>isTrack := Some is_track\<rparr>
                  in Inr (segment,
                          s1\<lparr>prevSegment := Some segment,
                             accumulatedTime := accumulatedTime s1 + audible segment\<rparr>)))"

partial_function (option) DynamicStation_loop ::
  "env \<Rightarrow> station \<Rightarrow> (synced_segment \<times> station) result option" where
  "DynamicStation_loop e s =
     (case DynamicStation_nextSegment e s of
        Inl err \<Rightarrow> Some (Inl err)
      | Inr (segment, s1) \<Rightarrow>
          if monthStart e + accumulatedTime s1 * 1000 > now e then Some (Inr (segment, s1))
          else DynamicStation_loop e s1)"

text \<open>\<^verbatim>\<open>PRNG.index = 0; this.accumulatedTime = 0; this.prevSegment = null\<close>, then
  the loop.\<close>

definition DynamicStation_getSyncedSegment ::
  "env \<Rightarrow> station \<Rightarrow> (synced_segment \<times> station) result option" where
  "DynamicStation_getSyncedSegment e s =
     DynamicStation_loop e
       (s\<lparr>PRNG := (PRNG s)\<lparr>index := 0\<rparr>, accumulatedTime := 0, prevSegment := None\<rparr>)"

section \<open>Notions used in the properties\<close>

text \<open>
  The invariant of a pool over a source of \<open>n\<close> indexes: the two arrays hold every
  index below \<open>n\<close> exactly once between them, and the queue of recent indexes is no
  longer than the window.
\<close>

definition pool_inv :: "nat \<Rightarrow> pool \<Rightarrow> bool" where
  "pool_inv n p = (distinct (draw p @ discard p) \<and> set (draw p) \<union> set (discard p) = {0..<n}
      \<and> int (length (discard p)) \<le> max (dontRepeatFor p) 0)"

text \<open>The indexes of the draws that returned one, in the order of the calls.\<close>

fun successful :: "nat option list \<Rightarrow> nat list" where
  "successful [] = []"
| "successful (None # vs) = successful vs"
| "successful (Some i # vs) = i # successful vs"

text \<open>
  Successive calls of \<^verbatim>\<open>nextUniqueIndex\<close> on one manager. A call is its four
  arguments \<^verbatim>\<open>(id, sourceSize, randomInteger, dontRepeatFor)\<close>; the result lists,
  for every call, its key with the value returned.
\<close>

type_synonym call = "string \<times> nat \<times> nat \<times> int"

fun nextUniqueIndex_calls :: "manager \<Rightarrow> call list \<Rightarrow> (string \<times> nat option) list \<times> manager" where
  "nextUniqueIndex_calls m [] = ([], m)"
| "nextUniqueIndex_calls m ((ident, sourceSize, randomInteger, w) # cs) =
     (case nextUniqueIndex m ident sourceSize randomInteger w of (v, m1) \<Rightarrow>
        (case nextUniqueIndex_calls m1 cs of (vs, m2) \<Rightarrow> ((ident, v) # vs, m2)))"

text \<open>The values returned to the calls with one key, and the random integers of those
  calls.\<close>

definition returned_for :: "string \<Rightarrow> (string \<times> nat option) list \<Rightarrow> nat option list" where
  "returned_for ident res = map snd (filter (\<lambda>kv. fst kv = ident) res)"

definition integers_for :: "string \<Rightarrow> call list \<Rightarrow> nat list" where
  "integers_for ident cs = map (\<lambda>c. fst (snd (snd c))) (filter (\<lambda>c. fst c = ident) cs)"

text \<open>
  Successive calls of \<^verbatim>\<open>nextSegment\<close> on one station, one clock reading per call,
  with the segments they return. An exception ends the run.
\<close>

fun TalkshowStation_nextSegments ::
  "env list \<Rightarrow> station \<Rightarrow> (synced_segment list \<times> station) result" where
  "TalkshowStation_nextSegments [] s = Inr ([], s)"
| "TalkshowStation_nextSegments (e # es) s =
     (case TalkshowStation_nextSegment e s of
        Inl err \<Rightarrow> Inl err
      | Inr (segment, s1) \<Rightarrow>
          (case TalkshowStation_nextSegments es s1 of
             Inl err \<Rightarrow> Inl err
           | Inr (segments, s2) \<Rightarrow> Inr (segment # segments, s2)))"

fun DynamicStation_nextSegments ::
  "env list \<Rightarrow> station \<Rightarrow> (synced_segment list \<times> station) result" where
  "DynamicStation_nextSegments [] s = Inr ([], s)"
| "DynamicStation_nextSegments (e # es) s =
     (case DynamicStation_nextSegment e s of
        Inl err \<Rightarrow> Inl err
      | Inr (segment, s1) \<Rightarrow>
          (case DynamicStation_nextSegments es s1 of
             Inl err \<Rightarrow> Inl err
           | Inr (segments, s2) \<Rightarrow> Inr (segment # segments, s2)))"

section \<open>A talkshow station and a dynamic station\<close>

text \<open>
  Two small stations for evaluating the code: the clock reads 12 seconds into November
  2026, whose first instant \<^verbatim>\<open>Date.UTC(2026, 10, 1)\<close> is 1793491200000.
\<close>

definition example_env :: env where
  "example_env = \<lparr>lastUsedPath = ''data/'', now = 1793491212000, monthStart = 1793491200000\<rparr>"

definition example_info :: "string \<Rightarrow> int \<Rightarrow> path_object list option \<Rightarrow> segment_info" where
  "example_info p d vs =
     \<lparr>path = p, duration = d, audibleDuration = None, voiceovers = vs, voiceOver = None\<rparr>"

definition example_talkshow_groups :: "string \<rightharpoonup> segment_info list" where
  "example_talkshow_groups =
     [''track'' \<mapsto> [example_info ''t0.ogg'' 10 None],
      ''id'' \<mapsto> [example_info ''a.ogg'' 5 None, example_info ''b.ogg'' 5 None,
                 example_info ''c.ogg'' 5 None]]"

definition example_talkshow :: station where
  "example_talkshow =
     TalkshowStation_constructor example_env (SeededPRNG_constructor 1) ''talk''
       example_talkshow_groups"

definition example_dynamic_groups :: "string \<rightharpoonup> segment_info list" where
  "example_dynamic_groups =
     [''track'' \<mapsto>
        [example_info ''t0.ogg'' 10 (Some [\<lparr>path = ''v0.ogg''\<rparr>, \<lparr>path = ''v1.ogg''\<rparr>]),
         example_info ''t1.ogg'' 10 (Some [\<lparr>path = ''v2.ogg''\<rparr>, \<lparr>path = ''v3.ogg''\<rparr>])],
      ''id'' \<mapsto> [example_info ''a.ogg'' 5 None, example_info ''b.ogg'' 5 None],
      ''mono_solo'' \<mapsto> [example_info ''m0.ogg'' 5 None, example_info ''m1.ogg'' 5 None]]"

definition example_dynamic :: station where
  "example_dynamic =
     DynamicStation_constructor example_env (SeededPRNG_constructor 1) ''rock''
       example_dynamic_groups"

text \<open>The value a call returned and the station it left, when it did not throw.\<close>

definition returned :: "('a \<times> station) result \<Rightarrow> 'a option" where
  "returned r = (case r of Inl err \<Rightarrow> None | Inr (v, s) \<Rightarrow> Some v)"

definition station_after :: "('a \<times> station) result \<Rightarrow> station option" where
  "station_after r = (case r of Inl err \<Rightarrow> None | Inr (v, s) \<Rightarrow> Some s)"

text \<open>
  The dynamic station after its first \<^verbatim>\<open>nextSegment\<close>: the second track has been
  played with its first voice-over, and two values of the generator are used.
\<close>

definition example_first_track :: synced_segment where
  "example_first_track =
     \<lparr>path = ''data/rock/t1.ogg'', duration = 10, audibleDuration = None,
      voiceovers = Some [\<lparr>path = ''v2.ogg''\<rparr>, \<lparr>path = ''v3.ogg''\<rparr>],
      voiceOver = Some \<lparr>path = ''data/rock/v2.ogg''\<rparr>,
      startTimestamp = 1793491200000, isTrack = Some True\<rparr>"

definition example_dynamic_after_track :: station where
  "example_dynamic_after_track =
     \<lparr>stationPath = ''rock'',
      fileGroups = example_dynamic_groups(''track'' \<mapsto>
        [example_info ''t0.ogg'' 10 (Some [\<lparr>path = ''v0.ogg''\<rparr>, \<lparr>path = ''v1.ogg''\<rparr>]),
         (example_info ''t1.ogg'' 10 (Some [\<lparr>path = ''v2.ogg''\<rparr>, \<lparr>path = ''v3.ogg''\<rparr>]))
           \<lparr>voiceOver := Some \<lparr>path = ''data/rock/v2.ogg''\<rparr>\<rparr>]),
      accumulatedTime = 10, segmentIndex = 0, prevSegment = Some example_first_track,
      indexDrawPools = [''track'' \<mapsto> \<lparr>draw = [0], discard = [1], dontRepeatFor = 1\<rparr>],
      PRNG = \<lparr>seed = 1793491200000, index = 2\<rparr>\<rparr>"

text \<open>
  The talkshow station after a first \<^verbatim>\<open>getSyncedSegment\<close> at the example's clock
  reading, which returned the transition \<^verbatim>\<open>a.ogg\<close>.
\<close>

definition example_transition :: "string \<Rightarrow> synced_segment" where
  "example_transition p =
     \<lparr>path = p, duration = 5, audibleDuration = None, voiceovers = None, voiceOver = None,
      startTimestamp = 1793491210000, isTrack = Some False\<rparr>"

definition example_talkshow_after_sync :: station where
  "example_talkshow_after_sync =
     \<lparr>stationPath = ''talk'', fileGroups = example_talkshow_groups,
      accumulatedTime = 15, segmentIndex = 1,
      prevSegment = Some (example_transition ''data/talk/a.ogg''),
      indexDrawPools = [''id'' \<mapsto> \<lparr>draw = [1, 2], discard = [0], dontRepeatFor = 2\<rparr>],
      PRNG = \<lparr>seed = 1793491200000, index = 1\<rparr>\<rparr>"

text \<open>
  A dynamic station with three tracks and no voice-overs, and the station a first
  \<^verbatim>\<open>getSyncedSegment\<close> at the example's clock reading leaves, having returned the
  track \<^verbatim>\<open>t1.ogg\<close>.
\<close>

definition example_three_tracks :: station where
  "example_three_tracks =
     DynamicStation_constructor example_env (SeededPRNG_constructor 1) ''pop''
       [''track'' \<mapsto> [example_info ''t0.ogg'' 10 None, example_info ''t1.ogg'' 10 None,
                       example_info ''t2.ogg'' 10 None]]"

definition example_track :: "string \<Rightarrow> synced_segment" where
  "example_track p =
     \<lparr>path = p, duration = 10, audibleDuration = None, voiceovers = None, voiceOver = None,
      startTimestamp = 1793491210000, isTrack = Some True\<rparr>"

definition example_three_tracks_after_sync :: station where
  "example_three_tracks_after_sync =
     \<lparr>stationPath = ''pop'',
      fileGroups = [''track'' \<mapsto> [example_info ''t0.ogg'' 10 None, example_info ''t1.ogg'' 10 None,
                                   example_info ''t2.ogg'' 10 None]],
      accumulatedTime = 20, segmentIndex = 0,
      prevSegment = Some (example_track ''data/pop/t1.ogg''),
      indexDrawPools = [''track'' \<mapsto> \<lparr>draw = [2], discard = [0, 1], dontRepeatFor = 2\<rparr>],
      PRNG = \<lparr>seed = 1793491200000, index = 2\<rparr>\<rparr>"

section \<open>The draw pool: invariant and history\<close>

lemma set_splice1:
  assumes "i < length xs" "distinct xs"
  shows "set (splice1 xs i) = set xs - {xs ! i}"
proof -
  have eq: "xs = take i xs @ (xs ! i) # drop (Suc i) xs"
    using assms(1) by (simp add: id_take_nth_drop)
  have "distinct (take i xs @ (xs ! i) # drop (Suc i) xs)"
    using assms(2) eq by simp
  then have "xs ! i \<notin> set (take i xs)" "xs ! i \<notin> set (drop (Suc i) xs)"
    by (simp_all only: distinct_append distinct.simps set_simps) auto
  moreover have "set xs = set (take i xs) \<union> {xs ! i} \<union> set (drop (Suc i) xs)"
    by (subst eq) (simp only: set_append set_simps, blast)
  ultimately show ?thesis
    unfolding splice1_def by (simp only: set_append) blast
qed

lemma distinct_splice1: 
  assumes "distinct xs" shows "distinct (splice1 xs i)"
proof -
  have "distinct (take i xs @ drop i xs)" using assms by simp
  then have a: "distinct (take i xs)" "set (take i xs) \<inter> set (drop i xs) = {}"
    by (simp_all only: distinct_append)
  have b: "set (drop (Suc i) xs) \<subseteq> set (drop i xs)" by (simp add: set_drop_subset_set_drop)
  have c: "distinct (drop (Suc i) xs)" using assms by simp
  show ?thesis unfolding splice1_def distinct_append using a b c by blast
qed

lemma pool_inv_constructor: "pool_inv n (IndexDrawPool_constructor n w)"
  by (simp add: pool_inv_def IndexDrawPool_constructor_def)

lemma next_None: "draw p = [] \<Longrightarrow> IndexDrawPool_next p r = (None, p)"
  by (simp add: IndexDrawPool_next_def)


lemma pool_inv_next:
  assumes inv: "pool_inv n p" and nx: "IndexDrawPool_next p r = (v, p1)"
  shows "pool_inv n p1 \<and> dontRepeatFor p1 = dontRepeatFor p"
proof (cases "draw p = []")
  case True
  then show ?thesis using assms by (simp add: next_None)
next
  case False
  define i where "i = r mod length (draw p)"
  define x where "x = draw p ! i"
  define D1 where "D1 = splice1 (draw p) i"
  have i: "i < length (draw p)" using False by (simp add: i_def)
  have d: "distinct (draw p)" "distinct (discard p)" "set (draw p) \<inter> set (discard p) = {}"
    and u: "set (draw p) \<union> set (discard p) = {0..<n}"
    and l: "int (length (discard p)) \<le> max (dontRepeatFor p) 0"
    using inv by (simp_all add: pool_inv_def)
  have s1: "set D1 = set (draw p) - {x}" unfolding D1_def x_def using set_splice1 i d(1) by blast
  have d1: "distinct D1" unfolding D1_def using distinct_splice1 d(1) by blast
  have mem: "x \<in> set (draw p)" unfolding x_def using i by simp
  have nmem: "x \<notin> set (discard p)" using mem d(3) by blast
  have step: "IndexDrawPool_next p r =
      (if int (length (discard p @ [x])) > dontRepeatFor p
       then (Some x, p\<lparr>draw := D1 @ [hd (discard p @ [x])], discard := tl (discard p @ [x])\<rparr>)
       else (Some x, p\<lparr>draw := D1, discard := discard p @ [x]\<rparr>))"
    using False by (simp add: IndexDrawPool_next_def Let_def D1_def x_def i_def)
  show ?thesis
  proof (cases "int (length (discard p @ [x])) > dontRepeatFor p")
    case True
    obtain h t where ht: "discard p @ [x] = h # t" by (cases "discard p @ [x]") auto
    have p1: "p1 = p\<lparr>draw := D1 @ [h], discard := t\<rparr>"
      using nx True unfolding step by (simp add: ht)
    have "distinct (h # t)" using d(2) nmem ht[symmetric] by simp
    then have dt: "distinct t" "h \<notin> set t" by simp_all
    have st: "insert h (set t) = insert x (set (discard p))"
      using arg_cong[OF ht, of set] by simp
    have lt: "length t = length (discard p)" using arg_cong[OF ht, of length] by simp
    have hD: "h \<notin> set D1" using st s1 d(3) by blast
    have tD: "set D1 \<inter> set t = {}" using st s1 d(3) by blast
    have A: "distinct ((D1 @ [h]) @ t)"
      using d1 dt hD tD by simp
    have "set D1 \<union> insert h (set t) = {0..<n}"
      unfolding st using s1 mem u by blast
    then have B: "set (D1 @ [h]) \<union> set t = {0..<n}" by simp
    show ?thesis using A B lt l by (simp add: p1 pool_inv_def)
  next
    case F: False
    have p1: "p1 = p\<lparr>draw := D1, discard := discard p @ [x]\<rparr>"
      using nx F unfolding step by simp
    have xD: "x \<notin> set D1" using s1 by blast
    have cD: "set D1 \<inter> set (discard p) = {}" using s1 d(3) by blast
    have A: "distinct (D1 @ discard p @ [x])"
      using d1 d(2) nmem xD cD by simp
    have "set D1 \<union> insert x (set (discard p)) = {0..<n}"
      using s1 mem u by blast
    then have B: "set D1 \<union> set (discard p @ [x]) = {0..<n}" by simp
    show ?thesis using A B F by (simp add: p1 pool_inv_def)
  qed
qed

lemma successful_append: "successful (us @ vs) = successful us @ successful vs"
  by (induction us rule: successful.induct) simp_all

lemma draws_append:
  "IndexDrawPool_draws p (rs @ rs') =
     (case IndexDrawPool_draws p rs of (vs, p1) \<Rightarrow>
        (case IndexDrawPool_draws p1 rs' of (vs', p2) \<Rightarrow> (vs @ vs', p2)))"
  by (induction rs arbitrary: p) (simp_all split: prod.splits)

lemma pool_inv_length: 
  assumes "pool_inv n p" shows "length (draw p) + length (discard p) = n"
proof -
  have "distinct (draw p @ discard p)" "set (draw p @ discard p) = {0..<n}"
    using assms by (simp_all add: pool_inv_def)
  then have "length (draw p @ discard p) = card {0..<n}" using distinct_card by metis
  then show ?thesis by simp
qed

lemma next_Some:
  assumes "draw p \<noteq> []"
  shows "fst (IndexDrawPool_next p r) = Some (draw p ! (r mod length (draw p)))"
  using assms by (simp add: IndexDrawPool_next_def Let_def)

lemma next_discard:
  assumes "IndexDrawPool_next p r = (Some x, p1)"
  shows "discard p1 = (if int (length (discard p)) + 1 > dontRepeatFor p
                       then tl (discard p @ [x]) else discard p @ [x])"
  using assms by (auto simp add: IndexDrawPool_next_def Let_def split: if_splits)

lemma next_bound:
  assumes "pool_inv n p" "IndexDrawPool_next p r = (Some x, p1)"
  shows "x < n"
proof -
  have ne: "draw p \<noteq> []" using assms(2) by (auto simp: IndexDrawPool_next_def)
  then have "x = draw p ! (r mod length (draw p))" using next_Some[OF ne, of r] assms(2) by simp
  then have "x \<in> set (draw p)" using ne by simp
  then show ?thesis using assms(1) unfolding pool_inv_def by (metis UnI1 atLeastLessThan_iff)
qed


lemma hist_step:
  assumes h: "discard p = drop (length ss - nat w) ss" and w: "dontRepeatFor p = w"
    and nx: "IndexDrawPool_next p r = (Some x, p1)"
  shows "discard p1 = drop (length (ss @ [x]) - nat w) (ss @ [x])"
proof -
  have d1: "discard p1 = (if int (length (discard p)) + 1 > w
                          then tl (discard p @ [x]) else discard p @ [x])"
    using next_discard[OF nx] w by simp
  have len: "length (discard p) = min (length ss) (nat w)"
    unfolding h by simp
  show ?thesis
  proof (cases "int (length (discard p)) + 1 > w")
    case True
    then have le: "nat w \<le> length ss" using len by linarith
    define k where "k = length ss - nat w"
    have k: "k \<le> length ss" "length (ss @ [x]) - nat w = Suc k"
      using le by (simp_all add: k_def)
    have "tl (drop k ss @ [x]) = tl (drop k (ss @ [x]))" using k(1) by simp
    also have "\<dots> = drop (Suc k) (ss @ [x])" by (simp only: drop_Suc tl_drop)
    finally show ?thesis using True d1 h k by (simp add: k_def)
  next
    case False
    then have "length ss < nat w" using len by linarith
    then show ?thesis using False d1 h by simp
  qed
qed

lemma window_step:
  assumes IH: "\<forall>k. distinct (take m (drop k ss))"
    and d: "distinct (drop (length (ss @ [x]) - m) (ss @ [x]))"
  shows "distinct (take m (drop k (ss @ [x])))"
proof (cases "k + m \<le> length ss")
  case True
  then have "k \<le> length ss" "m \<le> length (drop k ss)" by simp_all
  then have e: "take m (drop k (ss @ [x])) = take m (drop k ss)" by simp
  show ?thesis unfolding e using IH by blast
next
  case False
  define j where "j = length (ss @ [x]) - m"
  have "j \<le> k" using False by (simp add: j_def)
  then have "drop k (ss @ [x]) = drop (k - j) (drop j (ss @ [x]))"
    by (simp only: drop_drop le_add_diff_inverse2)
  then have "distinct (drop k (ss @ [x]))" using d distinct_drop unfolding j_def by metis
  then show ?thesis by (rule distinct_take)
qed

lemma run_inv:
  assumes "IndexDrawPool_draws (IndexDrawPool_constructor n w) rs = (outs, p)"
  shows "pool_inv n p \<and> dontRepeatFor p = w
     \<and> discard p = drop (length (successful outs) - nat w) (successful outs)
     \<and> (\<forall>k. distinct (take (nat w) (drop k (successful outs))))"
  using assms
proof (induction rs arbitrary: outs p rule: rev_induct)
  case Nil
  then show ?case using pool_inv_constructor[of n w]
    by (auto simp: IndexDrawPool_constructor_def)
next
  case (snoc r rs)
  obtain outs0 p0 where a: "IndexDrawPool_draws (IndexDrawPool_constructor n w) rs = (outs0, p0)"
    by fastforce
  obtain v p1 where b: "IndexDrawPool_next p0 r = (v, p1)" by fastforce
  have eq: "outs = outs0 @ [v]" "p = p1"
    using snoc.prems a b by (simp_all add: draws_append)
  note ih = snoc.IH[OF a]
  have inv1: "pool_inv n p1 \<and> dontRepeatFor p1 = dontRepeatFor p0"
    using pool_inv_next ih b by blast
  show ?case
  proof (cases v)
    case None
    then have "draw p0 = []" using b next_Some[of p0 r] by fastforce
    then have "p1 = p0" using b by (simp add: next_None)
    then show ?thesis using ih None eq by (simp add: successful_append)
  next
    case (Some x)
    have ss: "successful outs = successful outs0 @ [x]"
      using eq Some by (simp add: successful_append)
    have h: "discard p1 = drop (length (successful outs0 @ [x]) - nat w) (successful outs0 @ [x])"
      using hist_step[of p0 "successful outs0" w r x p1] ih b Some by blast
    have "distinct (discard p1)" using inv1 by (simp add: pool_inv_def)
    then have "\<forall>k. distinct (take (nat w) (drop k (successful outs0 @ [x])))"
      using window_step[of "nat w" "successful outs0" x] ih h by metis
    then show ?thesis using inv1 ih h eq ss by simp
  qed
qed

lemma draws_all_Some:
  assumes "pool_inv n p" "dontRepeatFor p < int n" "IndexDrawPool_draws p rs = (outs, p1)" "0 < n"
  shows "None \<notin> set outs"
  using assms
proof (induction rs arbitrary: p outs p1)
  case Nil
  then show ?case by simp
next
  case (Cons r rs)
  obtain v p2 where b: "IndexDrawPool_next p r = (v, p2)" by fastforce
  obtain vs p3 where c: "IndexDrawPool_draws p2 rs = (vs, p3)" by fastforce
  have eq: "outs = v # vs" using Cons.prems(3) b c by simp
  have "int (length (discard p)) \<le> max (dontRepeatFor p) 0" using Cons.prems(1) by (simp add: pool_inv_def)
  moreover have "length (draw p) + length (discard p) = n" using pool_inv_length Cons.prems(1) by blast
  ultimately have "0 < length (draw p)" using Cons.prems(2,4) by arith
  then have ne: "draw p \<noteq> []" by simp
  then have v: "v \<noteq> None" using next_Some[OF ne, of r] b by simp
  have "pool_inv n p2 \<and> dontRepeatFor p2 = dontRepeatFor p" using pool_inv_next Cons.prems(1) b by blast
  then have "None \<notin> set vs" using Cons.IH[of p2 vs] c Cons.prems(2,4) by simp
  then show ?case using v eq by auto
qed


section \<open>The manager: one pool per key\<close>

lemma nextUniqueIndex_present:
  assumes "m ident = Some q"
  shows "nextUniqueIndex m ident n r d =
     (fst (IndexDrawPool_next q r), m(ident \<mapsto> snd (IndexDrawPool_next q r)))"
  using assms by (simp add: nextUniqueIndex_def split: prod.splits)

lemma nextUniqueIndex_absent:
  assumes "m ident = None"
  shows "nextUniqueIndex m ident n r d =
     (fst (IndexDrawPool_next (IndexDrawPool_constructor n (min d (int n - 1))) r),
      m(ident \<mapsto> snd (IndexDrawPool_next (IndexDrawPool_constructor n (min d (int n - 1))) r)))"
  using assms by (simp add: nextUniqueIndex_def split: prod.splits)

lemma nextUniqueIndex_other:
  assumes "k \<noteq> ident"
  shows "snd (nextUniqueIndex m k n r d) ident = m ident"
  using assms by (simp add: nextUniqueIndex_def split: prod.splits option.splits)

lemma calls_Cons:
  "nextUniqueIndex_calls m ((k, n, r, d) # cs) =
     ((k, fst (nextUniqueIndex m k n r d))
        # fst (nextUniqueIndex_calls (snd (nextUniqueIndex m k n r d)) cs),
      snd (nextUniqueIndex_calls (snd (nextUniqueIndex m k n r d)) cs))"
  by (simp split: prod.splits)

lemma draws_Cons:
  "IndexDrawPool_draws p (r # rs) =
     (fst (IndexDrawPool_next p r) # fst (IndexDrawPool_draws (snd (IndexDrawPool_next p r)) rs),
      snd (IndexDrawPool_draws (snd (IndexDrawPool_next p r)) rs))"
  by (simp split: prod.splits)

lemma calls_present:
  assumes "m ident = Some q"
  shows "returned_for ident (fst (nextUniqueIndex_calls m cs)) =
           fst (IndexDrawPool_draws q (integers_for ident cs))
       \<and> snd (nextUniqueIndex_calls m cs) ident =
           Some (snd (IndexDrawPool_draws q (integers_for ident cs)))"
  using assms
proof (induction cs arbitrary: m q)
  case Nil
  then show ?case by (simp add: returned_for_def integers_for_def)
next
  case (Cons c cs)
  obtain k n r d where c: "c = (k, n, r, d)" by (cases c) auto
  show ?case
  proof (cases "k = ident")
    case True
    define q1 where "q1 = snd (IndexDrawPool_next q r)"
    have st: "nextUniqueIndex m ident n r d = (fst (IndexDrawPool_next q r), m(ident \<mapsto> q1))"
      using nextUniqueIndex_present[of m ident q n r d] Cons.prems by (simp add: q1_def)
    have ih: "returned_for ident (fst (nextUniqueIndex_calls (m(ident \<mapsto> q1)) cs)) =
           fst (IndexDrawPool_draws q1 (integers_for ident cs))
       \<and> snd (nextUniqueIndex_calls (m(ident \<mapsto> q1)) cs) ident =
           Some (snd (IndexDrawPool_draws q1 (integers_for ident cs)))"
      by (rule Cons.IH) simp
    have i: "integers_for ident ((ident, n, r, d) # cs) = r # integers_for ident cs"
      by (simp add: integers_for_def)
    have rf: "returned_for ident ((ident, v) # vs) = v # returned_for ident vs" for v vs
      by (simp add: returned_for_def)
    show ?thesis
      unfolding c True calls_Cons i draws_Cons st fst_conv snd_conv rf q1_def[symmetric]
      using ih by simp
  next
    case False
    have m1: "snd (nextUniqueIndex m k n r d) ident = Some q"
      using nextUniqueIndex_other[of k ident m n r d] False Cons.prems by simp
    have i: "integers_for ident ((k, n, r, d) # cs) = integers_for ident cs"
      using False by (simp add: integers_for_def)
    have rf: "returned_for ident ((k, v) # vs) = returned_for ident vs" for v vs
      using False by (simp add: returned_for_def)
    show ?thesis
      unfolding c calls_Cons i fst_conv snd_conv rf
      using Cons.IH[of "snd (nextUniqueIndex m k n r d)" q] m1 by blast
  qed
qed

lemma calls_absent:
  assumes "m ident = None" "find (\<lambda>c. fst c = ident) cs = Some (k0, n0, r0, d0)"
  shows "returned_for ident (fst (nextUniqueIndex_calls m cs)) =
           fst (IndexDrawPool_draws (IndexDrawPool_constructor n0 (min d0 (int n0 - 1)))
                  (integers_for ident cs))
       \<and> snd (nextUniqueIndex_calls m cs) ident =
           Some (snd (IndexDrawPool_draws (IndexDrawPool_constructor n0 (min d0 (int n0 - 1)))
                  (integers_for ident cs)))"
  using assms
proof (induction cs arbitrary: m)
  case Nil
  then show ?case by simp
next
  case (Cons c cs)
  obtain k n r d where c: "c = (k, n, r, d)" by (cases c) auto
  show ?case
  proof (cases "k = ident")
    case True
    then have first: "n = n0" "r = r0" "d = d0" using Cons.prems(2) c by simp_all
    define q0 where "q0 = IndexDrawPool_constructor n0 (min d0 (int n0 - 1))"
    define q1 where "q1 = snd (IndexDrawPool_next q0 r0)"
    have st: "nextUniqueIndex m ident n0 r0 d0 = (fst (IndexDrawPool_next q0 r0), m(ident \<mapsto> q1))"
      using nextUniqueIndex_absent[of m ident n0 r0 d0] Cons.prems(1) by (simp add: q1_def q0_def)
    have rest: "returned_for ident (fst (nextUniqueIndex_calls (m(ident \<mapsto> q1)) cs)) =
           fst (IndexDrawPool_draws q1 (integers_for ident cs))
       \<and> snd (nextUniqueIndex_calls (m(ident \<mapsto> q1)) cs) ident =
           Some (snd (IndexDrawPool_draws q1 (integers_for ident cs)))"
      by (rule calls_present) simp
    have i: "integers_for ident ((ident, n0, r0, d0) # cs) = r0 # integers_for ident cs"
      by (simp add: integers_for_def)
    have rf: "returned_for ident ((ident, v) # vs) = v # returned_for ident vs" for v vs
      by (simp add: returned_for_def)
    show ?thesis
      unfolding c True first calls_Cons i draws_Cons st fst_conv snd_conv rf
        q0_def[symmetric] q1_def[symmetric]
      using rest by simp
  next
    case False
    have m1: "snd (nextUniqueIndex m k n r d) ident = None"
      using nextUniqueIndex_other[of k ident m n r d] False Cons.prems by simp
    have f: "find (\<lambda>c. fst c = ident) cs = Some (k0, n0, r0, d0)"
      using Cons.prems(2) False c by simp
    have i: "integers_for ident ((k, n, r, d) # cs) = integers_for ident cs"
      using False by (simp add: integers_for_def)
    have rf: "returned_for ident ((k, v) # vs) = returned_for ident vs" for v vs
      using False by (simp add: returned_for_def)
    show ?thesis
      unfolding c calls_Cons i fst_conv snd_conv rf
      using Cons.IH[of "snd (nextUniqueIndex m k n r d)"] m1 f by blast
  qed
qed

lemma draws_empty:
  assumes "draw p = []"
  shows "IndexDrawPool_draws p rs = (replicate (length rs) None, p)"
  using assms by (induction rs) (simp_all add: next_None)

lemma next_single:
  assumes "w \<le> 0"
  shows "IndexDrawPool_next (IndexDrawPool_constructor (Suc 0) w) r =
           (Some 0, IndexDrawPool_constructor (Suc 0) w)"
  using assms by (simp add: IndexDrawPool_next_def IndexDrawPool_constructor_def splice1_def Let_def)

lemma draws_single:
  assumes "w \<le> 0"
  shows "IndexDrawPool_draws (IndexDrawPool_constructor 1 w) rs =
           (replicate (length rs) (Some 0), IndexDrawPool_constructor 1 w)"
  by (induction rs) (simp_all add: next_single[OF assms])

lemma draws_bound:
  assumes "pool_inv n p" "IndexDrawPool_draws p rs = (outs, p1)" "Some i \<in> set outs"
  shows "i < n"
  using assms
proof (induction rs arbitrary: p outs p1)
  case Nil
  then show ?case by simp
next
  case (Cons r rs)
  obtain v p2 where b: "IndexDrawPool_next p r = (v, p2)" by fastforce
  obtain vs p3 where c: "IndexDrawPool_draws p2 rs = (vs, p3)" by fastforce
  have eq: "outs = v # vs" using Cons.prems(2) b c by simp
  have inv2: "pool_inv n p2" using pool_inv_next Cons.prems(1) b by blast
  show ?case
  proof (cases "v = Some i")
    case True
    then show ?thesis using next_bound Cons.prems(1) b by blast
  next
    case False
    then have "Some i \<in> set vs" using Cons.prems(3) eq by simp
    then show ?thesis using Cons.IH[OF inv2 c] by blast
  qed
qed

lemma manager_pool_draw:
  assumes "IndexDrawPool_draws (IndexDrawPool_constructor n (min d (int n - 1))) rs = (outs, p)"
  shows "draw p = [] \<longleftrightarrow> n = 0"
proof -
  have inv: "pool_inv n p" and w: "dontRepeatFor p = min d (int n - 1)"
    using run_inv[OF assms] by simp_all
  have len: "length (draw p) + length (discard p) = n" using pool_inv_length[OF inv] .
  have "int (length (discard p)) \<le> max (dontRepeatFor p) 0" using inv by (simp add: pool_inv_def)
  then have "0 < n \<Longrightarrow> 0 < length (draw p)" using len w by arith
  moreover have "n = 0 \<Longrightarrow> draw p = []" using len by simp
  ultimately show ?thesis by auto
qed

section \<open>The generator\<close>

lemma ulp_small: "a < 9007199254740992 \<Longrightarrow> ulp a = 1"
  by (subst ulp.simps) simp

lemma ulp_large: "\<not> a < 9007199254740992 \<Longrightarrow> ulp a = 2 * ulp (a div 2)"
  by (subst ulp.simps) simp

lemma generate_bound: "SeededPRNG_generate g < 2 ^ 32"
proof -
  have "unat w < 2 ^ 32" for w :: "32 word"
    using unsigned_less[of w] by simp
  then show ?thesis unfolding SeededPRNG_generate_def Let_def by blast
qed

lemma nexts_values:
  "fst (SeededPRNG_nexts n g) = map (\<lambda>k. SeededPRNG_generate (g\<lparr>index := index g + k\<rparr>)) [0..<n]
   \<and> snd (SeededPRNG_nexts n g) = g\<lparr>index := index g + n\<rparr>"
proof (induction n arbitrary: g)
  case 0
  then show ?case by simp
next
  case (Suc n)
  define g1 where "g1 = g\<lparr>index := index g + 1\<rparr>"
  have step: "SeededPRNG_nexts (Suc n) g =
      (SeededPRNG_generate g # fst (SeededPRNG_nexts n g1), snd (SeededPRNG_nexts n g1))"
    by (simp add: SeededPRNG_next_def g1_def split: prod.splits)
  have up: "[0..<Suc n] = 0 # map Suc [0..<n]"
    by (simp only: map_Suc_upt upt_conv_Cons[of 0 "Suc n"] zero_less_Suc)
  have ih: "fst (SeededPRNG_nexts n g1) =
      map (\<lambda>k. SeededPRNG_generate (g1\<lparr>index := index g1 + k\<rparr>)) [0..<n]"
    and ih2: "snd (SeededPRNG_nexts n g1) = g1\<lparr>index := index g1 + n\<rparr>"
    using Suc[of g1] by simp_all
  have a: "fst (SeededPRNG_nexts (Suc n) g) =
      map (\<lambda>k. SeededPRNG_generate (g\<lparr>index := index g + k\<rparr>)) [0..<Suc n]"
    unfolding step up fst_conv ih by (simp add: g1_def comp_def)
  have b: "snd (SeededPRNG_nexts (Suc n) g) = g\<lparr>index := index g + Suc n\<rparr>"
    unfolding step snd_conv ih2 by (simp add: g1_def)
  show ?case using a b by blast
qed

lemma generate_0:
  assumes "seed g = 1793491200000" "index g = 0"
  shows "SeededPRNG_generate g = 1216495251"
  unfolding SeededPRNG_generate_def Let_def assms
  by (simp add: to_Number_def ulp_small ulp_large)

lemma generate_1:
  assumes "seed g = 1793491200000" "index g = 1"
  shows "SeededPRNG_generate g = 470905916"
  unfolding SeededPRNG_generate_def Let_def assms
  by (simp add: to_Number_def ulp_small ulp_large)

lemma generate_2:
  assumes "seed g = 1793491200000" "index g = 2"
  shows "SeededPRNG_generate g = 1390046287"
  unfolding SeededPRNG_generate_def Let_def assms
  by (simp add: to_Number_def ulp_small ulp_large)

lemma generate_3:
  assumes "seed g = 1793491200000" "index g = 3"
  shows "SeededPRNG_generate g = 503398262"
  unfolding SeededPRNG_generate_def Let_def assms
  by (simp add: to_Number_def ulp_small ulp_large)

lemma generate_4:
  assumes "seed g = 1793491200000" "index g = 4"
  shows "SeededPRNG_generate g = 3403396463"
  unfolding SeededPRNG_generate_def Let_def assms
  by (simp add: to_Number_def ulp_small ulp_large)

lemma generate_5:
  assumes "seed g = 1793491200000" "index g = 5"
  shows "SeededPRNG_generate g = 824764779"
  unfolding SeededPRNG_generate_def Let_def assms
  by (simp add: to_Number_def ulp_small ulp_large)

lemma generate_6:
  assumes "seed g = 1793491200000" "index g = 6"
  shows "SeededPRNG_generate g = 2679385686"
  unfolding SeededPRNG_generate_def Let_def assms
  by (simp add: to_Number_def ulp_small ulp_large)

section \<open>The stations: one step\<close>

lemma talkshow_step:
  assumes "TalkshowStation_nextSegment e s = Inr (segment, s1)"
  shows "prevSegment s1 = Some segment
     \<and> isTrack segment = Some (case prevSegment s of None \<Rightarrow> True | Some prev \<Rightarrow> isTrack prev \<noteq> Some True)"
  using assms
  by (auto simp: TalkshowStation_nextSegment_def Let_def newSyncedSegment_def
      split: sum.splits prod.splits if_splits option.splits)

lemma dynamic_step:
  assumes "DynamicStation_nextSegment e s = Inr (segment, s1)"
  shows "prevSegment s1 = Some segment
     \<and> isTrack segment = Some (case prevSegment s of None \<Rightarrow> True
          | Some prev \<Rightarrow> isTrack prev \<noteq> Some True
               \<or> SeededPRNG_toFloat (SeededPRNG_generate (PRNG s)) * 100 < 50)"
  using assms
  by (auto simp: DynamicStation_nextSegment_def Let_def newSyncedSegment_def SeededPRNG_next_def
      split: sum.splits prod.splits if_splits option.splits)

lemma talkshow_flags:
  assumes "TalkshowStation_nextSegments es s = Inr (segments, s1)"
    and "i < length segments"
  shows "isTrack (segments ! i) =
     Some ((case prevSegment s of None \<Rightarrow> True | Some prev \<Rightarrow> isTrack prev \<noteq> Some True) = even i)"
  using assms
proof (induction es arbitrary: s segments i)
  case Nil
  then show ?case by simp
next
  case (Cons e es)
  obtain seg s2 where st: "TalkshowStation_nextSegment e s = Inr (seg, s2)"
    using Cons.prems(1) by (auto split: sum.splits)
  obtain segs where rest: "TalkshowStation_nextSegments es s2 = Inr (segs, s1)"
    and eq: "segments = seg # segs"
    using Cons.prems(1) st by (auto split: sum.splits)
  note step = talkshow_step[OF st]
  show ?case
  proof (cases i)
    case 0
    then show ?thesis using step eq by simp
  next
    case (Suc j)
    then have "j < length segs" using Cons.prems(2) eq by simp
    from Cons.IH[OF rest this] show ?thesis using step eq Suc by auto
  qed
qed

lemma dynamic_first:
  assumes "DynamicStation_nextSegments es s = Inr (segments, s1)" and "segments \<noteq> []"
  shows "isTrack (segments ! 0) = Some (case prevSegment s of None \<Rightarrow> True
          | Some prev \<Rightarrow> isTrack prev \<noteq> Some True
               \<or> SeededPRNG_toFloat (SeededPRNG_generate (PRNG s)) * 100 < 50)"
proof (cases es)
  case Nil
  then show ?thesis using assms by simp
next
  case (Cons e es')
  obtain seg s2 where st: "DynamicStation_nextSegment e s = Inr (seg, s2)"
    using assms(1) Cons by (auto split: sum.splits)
  then have "segments ! 0 = seg" using assms(1) Cons by (auto split: sum.splits)
  then show ?thesis using dynamic_step[OF st] by simp
qed

lemma dynamic_pairs:
  assumes "DynamicStation_nextSegments es s = Inr (segments, s1)"
    and "Suc i < length segments" and "isTrack (segments ! i) \<noteq> Some True"
  shows "isTrack (segments ! Suc i) = Some True"
  using assms
proof (induction es arbitrary: s segments i)
  case Nil
  then show ?case by simp
next
  case (Cons e es)
  obtain seg s2 where st: "DynamicStation_nextSegment e s = Inr (seg, s2)"
    using Cons.prems(1) by (auto split: sum.splits)
  obtain segs where rest: "DynamicStation_nextSegments es s2 = Inr (segs, s1)"
    and eq: "segments = seg # segs"
    using Cons.prems(1) st by (auto split: sum.splits)
  note step = dynamic_step[OF st]
  show ?case
  proof (cases i)
    case 0
    then have ne: "segs \<noteq> []" and f: "isTrack seg \<noteq> Some True"
      using Cons.prems(2,3) eq by auto
    show ?thesis using dynamic_first[OF rest ne] step f eq 0 by simp
  next
    case (Suc j)
    then have "Suc j < length segs" "isTrack (segs ! j) \<noteq> Some True"
      using Cons.prems(2,3) eq by simp_all
    from Cons.IH[OF rest this] show ?thesis using eq Suc by simp
  qed
qed

lemma getRandomTrack_voiceover:
  assumes "DynamicStation_getRandomTrack e s randNum = Inr (tr, s1)"
    and "voiceovers tr = Some vs"
  shows "vs \<noteq> []
     \<and> voiceOver tr = Some \<lparr>path = getAbsolutePath e s
          (path (vs ! (SeededPRNG_generate (PRNG s) mod length vs)))\<rparr>
     \<and> PRNG s1 = (PRNG s)\<lparr>index := index (PRNG s) + 1\<rparr>
     \<and> stationPath s1 = stationPath s"
  using assms
  by (auto simp: DynamicStation_getRandomTrack_def Let_def SeededPRNG_next_def resolveObjectPath_def
      read_mod_def split: option.splits prod.splits sum.splits if_splits)

lemma getRandomTransition_PRNG:
  assumes "DynamicStation_getRandomTransition s randNum = Inr (info, s1)"
  shows "PRNG s1 = PRNG s \<and> stationPath s1 = stationPath s"
  using assms
  by (auto simp: DynamicStation_getRandomTransition_def Let_def
      split: option.splits prod.splits sum.splits if_splits)


lemma map_sum_Some_Inr:
  "map_sum id (map_prod Some id) x = Inr (y, z) \<longleftrightarrow> (\<exists>a. y = Some a \<and> x = Inr (a, z))"
  by (cases x) auto

lemma nextSegment_track:
  assumes "DynamicStation_nextSegment e s = Inr (segment, s1)" and "isTrack segment = Some True"
  shows "\<exists>tr s2. DynamicStation_getRandomTrack e (s\<lparr>PRNG := snd (SeededPRNG_next (PRNG s))\<rparr>)
              (fst (SeededPRNG_next (PRNG s))) = Inr (tr, s2)
     \<and> voiceovers segment = voiceovers tr \<and> voiceOver segment = voiceOver tr
     \<and> PRNG s1 = PRNG s2"
  using assms
  by (auto simp: DynamicStation_nextSegment_def Let_def newSyncedSegment_def resolveObjectPath_def
      map_sum_Some_Inr split: sum.splits prod.splits if_splits option.splits)

section \<open>Evaluating the two example stations\<close>

lemmas station_eval =
  TalkshowStation_constructor_def TalkshowStation_nextSegment_def TalkshowStation_getTrack_def
  TalkshowStation_getRandomTransition_def DynamicStation_constructor_def
  DynamicStation_nextSegment_def DynamicStation_getRandomTrack_def
  DynamicStation_getRandomTransition_def newSyncedSegment_def resolveObjectPath_def
  getAbsolutePath_def read_mod_def read_at_def audible_def nextUniqueIndex_def
  IndexDrawPool_next_def IndexDrawPool_constructor_def IndexDrawPoolManager_constructor_def
  splice1_def SeededPRNG_next_def SeededPRNG_constructor_def SeededPRNG_toFloat_def Let_def
  example_env_def example_info_def example_talkshow_groups_def example_talkshow_def
  example_dynamic_groups_def example_dynamic_def
  upt_rec numeral_2_eq_2[symmetric] numeral_3_eq_3[symmetric]

lemmas generate_eval =
  generate_0 generate_1 generate_2 generate_3 generate_4 generate_5 generate_6

lemma example_talkshow_run:
  "\<exists>segs s1. TalkshowStation_nextSegments [example_env, example_env, example_env] example_talkshow
       = Inr (segs, s1)
     \<and> map isTrack segs = [Some True, Some False, Some True]
     \<and> map path segs = [''data/talk/t0.ogg'', ''data/talk/a.ogg'', ''data/talk/t0.ogg'']"
  by (simp add: station_eval generate_eval)

lemma example_dynamic_run:
  "\<exists>segs s1. DynamicStation_nextSegments [example_env, example_env, example_env, example_env]
         example_dynamic = Inr (segs, s1)
     \<and> map isTrack segs = [Some True, Some True, Some False, Some True]
     \<and> map path segs = [''data/rock/t1.ogg'', ''data/rock/t0.ogg'', ''data/rock/m1.ogg'',
          ''data/rock/t1.ogg'']
     \<and> map voiceOver segs = [Some \<lparr>path = ''data/rock/v2.ogg''\<rparr>, Some \<lparr>path = ''data/rock/v0.ogg''\<rparr>,
          None, Some \<lparr>path = ''data/rock/v2.ogg''\<rparr>]"
  by (simp add: station_eval generate_eval)

lemma example_dynamic_step1:
  "DynamicStation_nextSegment example_env example_dynamic =
     Inr (example_first_track, example_dynamic_after_track)"
  by (simp add: station_eval generate_eval example_first_track_def example_dynamic_after_track_def)

lemma example_dynamic_step2:
  "returned (DynamicStation_nextSegment example_env example_dynamic_after_track) =
     Some \<lparr>path = ''data/rock/t0.ogg'', duration = 10, audibleDuration = None,
      voiceovers = Some [\<lparr>path = ''v0.ogg''\<rparr>, \<lparr>path = ''v1.ogg''\<rparr>],
      voiceOver = Some \<lparr>path = ''data/rock/v0.ogg''\<rparr>,
      startTimestamp = 1793491210000, isTrack = Some True\<rparr>"
  by (simp add: station_eval generate_eval example_first_track_def example_dynamic_after_track_def returned_def)

lemma example_talkshow_sync1:
  "TalkshowStation_getSyncedSegment example_env example_talkshow =
     Some (Inr (example_transition ''data/talk/a.ogg'', example_talkshow_after_sync))"
  by (simp add: TalkshowStation_getSyncedSegment_def TalkshowStation_loop.simps
      station_eval generate_eval example_transition_def example_talkshow_after_sync_def)

lemma example_talkshow_sync2:
  "map_option returned (TalkshowStation_getSyncedSegment example_env example_talkshow_after_sync) =
     Some (Some (example_transition ''data/talk/c.ogg''))"
  by (simp add: TalkshowStation_getSyncedSegment_def TalkshowStation_loop.simps returned_def
      station_eval generate_eval example_transition_def example_talkshow_after_sync_def)

lemma returned_Some:
  "returned r = Some v \<Longrightarrow> \<exists>s. r = Inr (v, s)"
  by (auto simp: returned_def split: sum.splits)

lemma example_three_tracks_sync1:
  "DynamicStation_getSyncedSegment example_env example_three_tracks =
     Some (Inr (example_track ''data/pop/t1.ogg'', example_three_tracks_after_sync))"
  by (simp add: DynamicStation_getSyncedSegment_def DynamicStation_loop.simps
      station_eval generate_eval example_track_def example_three_tracks_def
      example_three_tracks_after_sync_def)

lemma example_three_tracks_sync2:
  "map_option returned (DynamicStation_getSyncedSegment example_env example_three_tracks_after_sync) =
     Some (Some (example_track ''data/pop/t0.ogg''))"
  by (simp add: DynamicStation_getSyncedSegment_def DynamicStation_loop.simps returned_def
      station_eval generate_eval example_track_def example_three_tracks_after_sync_def)

text \<open>
  Claim C1 fails on the code. In the example station after its first track the previous
  segment is a track and \<^verbatim>\<open>randPercent\<close> is below 50, and the step returns a track,
  not a transition.
\<close>

theorem DynamicStation_nextSegment_counterexample:
  "prevSegment example_dynamic_after_track = Some example_first_track
   \<and> isTrack example_first_track = Some True
   \<and> SeededPRNG_toFloat (SeededPRNG_generate (PRNG example_dynamic_after_track)) * 100 < 50
   \<and> map_option isTrack (returned (DynamicStation_nextSegment example_env example_dynamic_after_track))
       = Some (Some True)"
  using example_dynamic_step2
  by (simp add: example_dynamic_after_track_def example_first_track_def generate_eval
      SeededPRNG_toFloat_def)

text \<open>
  Claim C1, as the code has it. When the previous segment exists and was a track, a step
  of the dynamic station that returns a segment returns a track exactly when
  \<^verbatim>\<open>randPercent = toFloat(randNum) * 100\<close> is below 50, which is when \<^verbatim>\<open>randNum\<close> is
  below \<open>2 ^ 31\<close>, and a transition otherwise.
\<close>

theorem DynamicStation_nextSegment_after_track:
  assumes "prevSegment s = Some prev" and "isTrack prev = Some True"
    and "DynamicStation_nextSegment e s = Inr (segment, s1)"
  shows "isTrack segment = Some (SeededPRNG_toFloat (SeededPRNG_generate (PRNG s)) * 100 < 50)
     \<and> (SeededPRNG_toFloat (SeededPRNG_generate (PRNG s)) * 100 < 50
          \<longleftrightarrow> SeededPRNG_generate (PRNG s) < 2147483648)"
proof -
  have "isTrack segment = Some (SeededPRNG_toFloat (SeededPRNG_generate (PRNG s)) * 100 < 50)"
    using dynamic_step[OF assms(3)] assms(1,2) by simp
  moreover have "SeededPRNG_toFloat r * 100 < 50 \<longleftrightarrow> r < 2147483648" for r :: nat
  proof -
    have "SeededPRNG_toFloat r * 100 < 50 \<longleftrightarrow> real r * 2 < 4294967295"
      by (simp add: SeededPRNG_toFloat_def field_simps)
    also have "\<dots> \<longleftrightarrow> real (r * 2) < real 4294967295" by simp
    also have "\<dots> \<longleftrightarrow> r * 2 < 4294967295" by (simp only: of_nat_less_iff)
    also have "\<dots> \<longleftrightarrow> r < 2147483648" by arith
    finally show ?thesis .
  qed
  ultimately show ?thesis by blast
qed

theorem DynamicStation_nextSegment_after_track_witness:
  "prevSegment example_dynamic_after_track = Some example_first_track
   \<and> isTrack example_first_track = Some True
   \<and> (\<exists>segment s1. DynamicStation_nextSegment example_env example_dynamic_after_track
          = Inr (segment, s1)
        \<and> path segment = ''data/rock/t0.ogg''
        \<and> isTrack segment = Some (SeededPRNG_toFloat
             (SeededPRNG_generate (PRNG example_dynamic_after_track)) * 100 < 50))
   \<and> SeededPRNG_generate (PRNG example_dynamic_after_track) = 1390046287"
proof -
  have p: "prevSegment example_dynamic_after_track = Some example_first_track"
    and t: "isTrack example_first_track = Some True"
    by (simp_all add: example_dynamic_after_track_def example_first_track_def)
  obtain s1 where run: "DynamicStation_nextSegment example_env example_dynamic_after_track =
     Inr (\<lparr>path = ''data/rock/t0.ogg'', duration = 10, audibleDuration = None,
      voiceovers = Some [\<lparr>path = ''v0.ogg''\<rparr>, \<lparr>path = ''v1.ogg''\<rparr>],
      voiceOver = Some \<lparr>path = ''data/rock/v0.ogg''\<rparr>,
      startTimestamp = 1793491210000, isTrack = Some True\<rparr>, s1)"
    using returned_Some[OF example_dynamic_step2] by blast
  have g: "SeededPRNG_generate (PRNG example_dynamic_after_track) = 1390046287"
    by (simp add: example_dynamic_after_track_def generate_eval)
  from DynamicStation_nextSegment_after_track[OF p t run] show ?thesis
    using p t run g by simp
qed

text \<open>
  Claim C2 fails on the code. The first step of the example station draws
  \<^verbatim>\<open>randNum = 1216495251\<close> and returns the track \<^verbatim>\<open>t1.ogg\<close>, which declares two
  voice-overs. \<^verbatim>\<open>randNum % 2\<close> is 1, the index of \<^verbatim>\<open>v3.ogg\<close>; the voice-over
  attached is \<^verbatim>\<open>v2.ogg\<close>, at index 0.
\<close>

theorem DynamicStation_voiceover_counterexample:
  "returned (DynamicStation_nextSegment example_env example_dynamic) = Some example_first_track
   \<and> voiceovers example_first_track = Some [\<lparr>path = ''v2.ogg''\<rparr>, \<lparr>path = ''v3.ogg''\<rparr>]
   \<and> SeededPRNG_generate (PRNG example_dynamic) = 1216495251
   \<and> [\<lparr>path = ''v2.ogg''\<rparr>, \<lparr>path = ''v3.ogg''\<rparr>] ! (1216495251 mod 2) = \<lparr>path = ''v3.ogg''\<rparr>
   \<and> voiceOver example_first_track = Some \<lparr>path = ''data/rock/v2.ogg''\<rparr>"
proof -
  have a: "returned (DynamicStation_nextSegment example_env example_dynamic) = Some example_first_track"
    by (simp add: example_dynamic_step1 returned_def)
  have b: "voiceovers example_first_track = Some [\<lparr>path = ''v2.ogg''\<rparr>, \<lparr>path = ''v3.ogg''\<rparr>]"
    and e: "voiceOver example_first_track = Some \<lparr>path = ''data/rock/v2.ogg''\<rparr>"
    by (simp_all add: example_first_track_def)
  have c: "SeededPRNG_generate (PRNG example_dynamic) = 1216495251"
    by (simp add: example_dynamic_def DynamicStation_constructor_def SeededPRNG_constructor_def
        example_env_def generate_eval)
  have d: "[\<lparr>path = ''v2.ogg''\<rparr>, \<lparr>path = ''v3.ogg''\<rparr>] ! (1216495251 mod 2) = \<lparr>path = ''v3.ogg''\<rparr>"
    by simp
  show ?thesis by (intro conjI a b c d e)
qed

text \<open>
  Claim C2, as the code has it. When a step of the dynamic station returns a track that
  declares voice-overs, the list is not empty and the voice-over attached is the one at
  index \<^verbatim>\<open>PRNG.next() % voiceovers.length\<close>, with its path resolved: the value of a
  second call of \<^verbatim>\<open>PRNG.next()\<close>, at the index after the one that gave
  \<^verbatim>\<open>randNum\<close>. The step advances the generator's index by two.
\<close>

theorem DynamicStation_voiceover_fresh_draw:
  assumes "DynamicStation_nextSegment e s = Inr (segment, s1)"
    and "isTrack segment = Some True" and "voiceovers segment = Some vs"
  shows "vs \<noteq> []
     \<and> voiceOver segment = Some \<lparr>path = getAbsolutePath e s
          (path (vs ! (SeededPRNG_generate ((PRNG s)\<lparr>index := index (PRNG s) + 1\<rparr>) mod length vs)))\<rparr>
     \<and> PRNG s1 = (PRNG s)\<lparr>index := index (PRNG s) + 2\<rparr>"
proof -
  define s0 where "s0 = s\<lparr>PRNG := snd (SeededPRNG_next (PRNG s))\<rparr>"
  obtain tr s2 where tr:
    "DynamicStation_getRandomTrack e s0 (fst (SeededPRNG_next (PRNG s))) = Inr (tr, s2)"
    and same: "voiceovers segment = voiceovers tr" "voiceOver segment = voiceOver tr"
      "PRNG s1 = PRNG s2"
    using nextSegment_track[OF assms(1,2)] unfolding s0_def by blast
  have vs: "voiceovers tr = Some vs" using same(1) assms(3) by simp
  have g: "PRNG s0 = (PRNG s)\<lparr>index := index (PRNG s) + 1\<rparr>"
    by (simp add: s0_def SeededPRNG_next_def)
  have p: "getAbsolutePath e s0 x = getAbsolutePath e s x" for x
    by (simp add: s0_def getAbsolutePath_def)
  show ?thesis using getRandomTrack_voiceover[OF tr vs] same g p by simp
qed

theorem DynamicStation_voiceover_fresh_draw_witness:
  "DynamicStation_nextSegment example_env example_dynamic =
     Inr (example_first_track, example_dynamic_after_track)
   \<and> isTrack example_first_track = Some True
   \<and> voiceovers example_first_track = Some [\<lparr>path = ''v2.ogg''\<rparr>, \<lparr>path = ''v3.ogg''\<rparr>]
   \<and> voiceOver example_first_track = Some \<lparr>path = getAbsolutePath example_env example_dynamic
        (path ([\<lparr>path = ''v2.ogg''\<rparr>, \<lparr>path = ''v3.ogg''\<rparr>] !
           (SeededPRNG_generate ((PRNG example_dynamic)\<lparr>index := index (PRNG example_dynamic) + 1\<rparr>)
              mod length [\<lparr>path = ''v2.ogg''\<rparr>, \<lparr>path = ''v3.ogg''\<rparr>])))\<rparr>
   \<and> PRNG example_dynamic_after_track =
       (PRNG example_dynamic)\<lparr>index := index (PRNG example_dynamic) + 2\<rparr>"
proof -
  have t: "isTrack example_first_track = Some True"
    and v: "voiceovers example_first_track = Some [\<lparr>path = ''v2.ogg''\<rparr>, \<lparr>path = ''v3.ogg''\<rparr>]"
    by (simp_all add: example_first_track_def)
  from DynamicStation_voiceover_fresh_draw[OF example_dynamic_step1 t v] show ?thesis
    using example_dynamic_step1 t v by blast
qed

text \<open>
  Claim C3, evaluated. A first \<^verbatim>\<open>getSyncedSegment\<close> of the example talkshow station
  returns the transition \<^verbatim>\<open>a.ogg\<close> and leaves the pool of the key \<^verbatim>\<open>id\<close> with that
  index in its queue; a second call on the station it left, at the same clock reading,
  returns the transition \<^verbatim>\<open>c.ogg\<close>. The dynamic station with three tracks returns the
  track \<^verbatim>\<open>t1.ogg\<close> to the first call and the track \<^verbatim>\<open>t0.ogg\<close> to the second.
\<close>

theorem getSyncedSegment_twice:
  "TalkshowStation_getSyncedSegment example_env example_talkshow =
     Some (Inr (example_transition ''data/talk/a.ogg'', example_talkshow_after_sync))
   \<and> map_option returned (TalkshowStation_getSyncedSegment example_env example_talkshow_after_sync) =
       Some (Some (example_transition ''data/talk/c.ogg''))
   \<and> indexDrawPools example_talkshow_after_sync ''id'' =
       Some \<lparr>draw = [1, 2], discard = [0], dontRepeatFor = 2\<rparr>
   \<and> DynamicStation_getSyncedSegment example_env example_three_tracks =
       Some (Inr (example_track ''data/pop/t1.ogg'', example_three_tracks_after_sync))
   \<and> map_option returned
         (DynamicStation_getSyncedSegment example_env example_three_tracks_after_sync) =
       Some (Some (example_track ''data/pop/t0.ogg''))
   \<and> indexDrawPools example_three_tracks_after_sync ''track'' =
       Some \<lparr>draw = [2], discard = [0, 1], dontRepeatFor = 2\<rparr>"
  by (intro conjI example_talkshow_sync1 example_talkshow_sync2 example_three_tracks_sync1
      example_three_tracks_sync2)
    (simp_all add: example_talkshow_after_sync_def example_three_tracks_after_sync_def)

theorem getSyncedSegment_twice_witness:
  "map_option returned (TalkshowStation_getSyncedSegment example_env example_talkshow) =
     Some (Some (example_transition ''data/talk/a.ogg''))
   \<and> map_option returned (DynamicStation_getSyncedSegment example_env example_three_tracks) =
     Some (Some (example_track ''data/pop/t1.ogg''))"
  using getSyncedSegment_twice by (simp add: returned_def)

text \<open>
  Claim C4. Take a pool created for \<open>n \<ge> 2\<close> indexes with a window \<open>w < n\<close> and
  call \<^verbatim>\<open>next\<close> on it any number of times, with any random integers. Then the two
  arrays of the pool hold between them exactly the indexes \<open>0..n-1\<close>, every call
  returned an index, and no \<open>w\<close> consecutive calls returned the same index twice.
\<close>

theorem IndexDrawPool_no_repeat:
  assumes "2 \<le> n" and "w < int n"
    and "IndexDrawPool_draws (IndexDrawPool_constructor n w) rs = (outs, p)"
  shows "set (draw p) \<union> set (discard p) = {0..<n} \<and> None \<notin> set outs
     \<and> (\<forall>k. distinct (take (nat w) (drop k (successful outs))))"
proof -
  have inv: "pool_inv n p \<and> dontRepeatFor p = w
     \<and> discard p = drop (length (successful outs) - nat w) (successful outs)
     \<and> (\<forall>k. distinct (take (nat w) (drop k (successful outs))))"
    using run_inv[OF assms(3)] .
  have "None \<notin> set outs"
    using draws_all_Some[OF pool_inv_constructor _ assms(3)] assms(1,2)
    by (simp add: IndexDrawPool_constructor_def)
  moreover have "set (draw p) \<union> set (discard p) = {0..<n}"
    using inv unfolding pool_inv_def by blast
  ultimately show ?thesis using inv by blast
qed

lemma draws_example:
  "IndexDrawPool_draws (IndexDrawPool_constructor 3 2) [5, 7, 1, 4] =
     ([Some 2, Some 1, Some 0, Some 2], \<lparr>draw = [1], discard = [0, 2], dontRepeatFor = 2\<rparr>)"
  by code_simp

theorem IndexDrawPool_no_repeat_witness:
  "IndexDrawPool_draws (IndexDrawPool_constructor 3 2) [5, 7, 1, 4] =
     ([Some 2, Some 1, Some 0, Some 2], \<lparr>draw = [1], discard = [0, 2], dontRepeatFor = 2\<rparr>)
   \<and> set [1] \<union> set [0, 2] = {0..<3::nat}
   \<and> None \<notin> set [Some 2, Some 1, Some 0, Some (2::nat)]
   \<and> distinct (take (nat 2) (drop 1 (successful [Some 2, Some 1, Some 0, Some 2])))"
proof -
  have a: "2 \<le> (3::nat)" and b: "(2::int) < int 3" by simp_all
  from IndexDrawPool_no_repeat[OF a b draws_example] show ?thesis
    using draws_example by simp
qed

text \<open>
  Claim C5. \<^verbatim>\<open>generate\<close> assigns to no field: its value is a function of the seed and
  the index, an unsigned number below \<open>2 ^ 32\<close>. The values of successive calls of
  \<^verbatim>\<open>next\<close> on a new generator are the values of \<^verbatim>\<open>generate\<close> at the indexes
  \<open>0, 1, 2, ...\<close> of its seed, so two generators with equal seeds that start at index 0
  return the same values, call for call.
\<close>

theorem SeededPRNG_deterministic:
  "SeededPRNG_generate g < 2 ^ 32
   \<and> (seed g = seed h \<and> index g = index h \<longrightarrow> SeededPRNG_generate g = SeededPRNG_generate h)
   \<and> fst (SeededPRNG_nexts n (SeededPRNG_constructor s)) =
       map (\<lambda>k. SeededPRNG_generate \<lparr>seed = s, index = k\<rparr>) [0..<n]
   \<and> (seed g = seed h \<and> index g = 0 \<and> index h = 0 \<longrightarrow>
        fst (SeededPRNG_nexts n g) = fst (SeededPRNG_nexts n h))"
proof -
  have A: "SeededPRNG_generate g = SeededPRNG_generate h" if "seed g = seed h" "index g = index h"
    using that by (simp add: SeededPRNG_generate_def)
  have B: "fst (SeededPRNG_nexts n (SeededPRNG_constructor s)) =
       map (\<lambda>k. SeededPRNG_generate \<lparr>seed = s, index = k\<rparr>) [0..<n]"
    using nexts_values[of n "SeededPRNG_constructor s"] by (simp add: SeededPRNG_constructor_def)
  have C: "fst (SeededPRNG_nexts n g) = fst (SeededPRNG_nexts n h)"
    if "seed g = seed h" "index g = 0" "index h = 0"
  proof -
    have "g = h" using that by simp
    then show ?thesis by simp
  qed
  show ?thesis using generate_bound A B C by blast
qed

theorem SeededPRNG_deterministic_witness:
  "seed ((snd (SeededPRNG_nexts 2 (SeededPRNG_constructor 1793491200000)))\<lparr>index := 0\<rparr>) =
     seed (SeededPRNG_constructor 1793491200000)
   \<and> index ((snd (SeededPRNG_nexts 2 (SeededPRNG_constructor 1793491200000)))\<lparr>index := 0\<rparr>) = 0
   \<and> index (SeededPRNG_constructor 1793491200000) = 0
   \<and> fst (SeededPRNG_nexts 3 ((snd (SeededPRNG_nexts 2 (SeededPRNG_constructor 1793491200000)))\<lparr>index := 0\<rparr>))
       = [1216495251, 470905916, 1390046287]
   \<and> fst (SeededPRNG_nexts 3 (SeededPRNG_constructor 1793491200000))
       = [1216495251, 470905916, 1390046287]"
proof -
  define g where "g = (snd (SeededPRNG_nexts 2 (SeededPRNG_constructor 1793491200000)))\<lparr>index := 0\<rparr>"
  define h where "h = SeededPRNG_constructor 1793491200000"
  have s: "seed g = seed h" and i: "index g = 0" "index h = 0"
    unfolding g_def h_def using nexts_values[of 2 "SeededPRNG_constructor 1793491200000"]
    by (simp_all add: SeededPRNG_constructor_def)
  have v: "fst (SeededPRNG_nexts 3 h) = [1216495251, 470905916, 1390046287]"
    unfolding h_def
    by (simp add: numeral_3_eq_3 SeededPRNG_next_def SeededPRNG_constructor_def
        generate_0 generate_1 generate_2)
  from SeededPRNG_deterministic[of g h 3] s i
  have "fst (SeededPRNG_nexts 3 g) = fst (SeededPRNG_nexts 3 h)" by blast
  then show ?thesis using s i v unfolding g_def h_def by simp
qed

text \<open>
  Claim C6. \<^verbatim>\<open>next\<close> returns \<^verbatim>\<open>null\<close> exactly when \<^verbatim>\<open>draw\<close> is empty. For the
  pool a new manager keeps under a key, created by the first call with that key for
  \<open>n0\<close> indexes, \<^verbatim>\<open>draw\<close> is empty after any sequence of calls exactly when \<open>n0 = 0\<close>,
  so a \<^verbatim>\<open>null\<close> among the values returned for the key means \<open>n0 = 0\<close>, and then every
  value is \<^verbatim>\<open>null\<close>; for \<open>n0 = 1\<close> every value returned for the key is the index 0.
  A pool created for no index, whatever its window, returns \<^verbatim>\<open>null\<close> from every draw.
\<close>

theorem IndexDrawPool_next_null:
  assumes "find (\<lambda>c. fst c = ident) cs = Some (k0, n0, r0, d0)"
  shows "(fst (IndexDrawPool_next p r) = None \<longleftrightarrow> draw p = [])
     \<and> (\<exists>q. snd (nextUniqueIndex_calls IndexDrawPoolManager_constructor cs) ident = Some q
            \<and> (draw q = [] \<longleftrightarrow> n0 = 0))
     \<and> (None \<in> set (returned_for ident
            (fst (nextUniqueIndex_calls IndexDrawPoolManager_constructor cs))) \<longrightarrow> n0 = 0)
     \<and> (n0 = 0 \<longrightarrow> returned_for ident
            (fst (nextUniqueIndex_calls IndexDrawPoolManager_constructor cs)) =
              replicate (length (integers_for ident cs)) None)
     \<and> (n0 = 1 \<longrightarrow> returned_for ident
            (fst (nextUniqueIndex_calls IndexDrawPoolManager_constructor cs)) =
              replicate (length (integers_for ident cs)) (Some 0))
     \<and> fst (IndexDrawPool_draws (IndexDrawPool_constructor 0 w) rs) = replicate (length rs) None"
proof -
  define q0 where "q0 = IndexDrawPool_constructor n0 (min d0 (int n0 - 1))"
  define xs where "xs = integers_for ident cs"
  define res where "res = returned_for ident
            (fst (nextUniqueIndex_calls IndexDrawPoolManager_constructor cs))"
  have run: "res = fst (IndexDrawPool_draws q0 xs)"
    and fin: "snd (nextUniqueIndex_calls IndexDrawPoolManager_constructor cs) ident =
           Some (snd (IndexDrawPool_draws q0 xs))"
    unfolding q0_def xs_def res_def
    using calls_absent[of IndexDrawPoolManager_constructor ident cs k0 n0 r0 d0] assms
    by (simp_all add: IndexDrawPoolManager_constructor_def)
  have pair: "IndexDrawPool_draws q0 xs = (res, snd (IndexDrawPool_draws q0 xs))"
    using run by simp
  have A: "fst (IndexDrawPool_next p r) = None \<longleftrightarrow> draw p = []"
  proof (cases "draw p = []")
    case True
    then show ?thesis by (simp add: next_None)
  next
    case False
    then show ?thesis using next_Some[OF False, of r] by simp
  qed
  have B: "draw (snd (IndexDrawPool_draws q0 xs)) = [] \<longleftrightarrow> n0 = 0"
    using manager_pool_draw[OF pair[unfolded q0_def]] unfolding q0_def .
  have inv: "pool_inv n0 q0" unfolding q0_def by (rule pool_inv_constructor)
  have C: "n0 = 0" if "None \<in> set res"
  proof (rule ccontr)
    assume "n0 \<noteq> 0"
    then have "0 < n0" "dontRepeatFor q0 < int n0"
      by (simp_all add: q0_def IndexDrawPool_constructor_def)
    then have "None \<notin> set res" using draws_all_Some[OF inv _ pair] by blast
    then show False using that by blast
  qed
  have D: "res = replicate (length xs) None" if "n0 = 0"
    using draws_empty[of q0 xs] that run by (simp add: q0_def IndexDrawPool_constructor_def)
  have E: "res = replicate (length xs) (Some 0)" if "n0 = 1"
    using draws_single[of "min d0 0" xs] that run by (simp add: q0_def)
  have F: "fst (IndexDrawPool_draws (IndexDrawPool_constructor 0 w) rs) = replicate (length rs) None"
    using draws_empty[of "IndexDrawPool_constructor 0 w" rs] by (simp add: IndexDrawPool_constructor_def)
  show ?thesis using A B C D E F fin unfolding res_def xs_def by blast
qed

theorem IndexDrawPool_next_null_witness:
  "find (\<lambda>c. fst c = ''id'') [(''id'', 1, 5, 8), (''track'', 4, 6, 8), (''id'', 7, 6, 8)]
     = Some (''id'', 1::nat, 5::nat, 8::int)
   \<and> returned_for ''id'' (fst (nextUniqueIndex_calls IndexDrawPoolManager_constructor
         [(''id'', 1, 5, 8), (''track'', 4, 6, 8), (''id'', 7, 6, 8)]))
     = [Some 0, Some 0]
   \<and> None \<notin> set (returned_for ''id'' (fst (nextUniqueIndex_calls IndexDrawPoolManager_constructor
         [(''id'', 1, 5, 8), (''track'', 4, 6, 8), (''id'', 7, 6, 8)])))"
proof -
  have f: "find (\<lambda>c. fst c = ''id'') [(''id'', 1, 5, 8), (''track'', 4, 6, 8), (''id'', 7, 6, 8)]
     = Some (''id'', 1::nat, 5::nat, 8::int)" by simp
  have l: "replicate (length (integers_for ''id'' [(''id'', 1::nat, 5::nat, 8::int), (''track'', 4, 6, 8), (''id'', 7, 6, 8)])) (Some (0::nat))
     = [Some 0, Some 0]" by (simp add: integers_for_def)
  from IndexDrawPool_next_null[OF f] show ?thesis
    using f l by simp
qed

text \<open>
  Claim C7. In the segments that successive calls of the talkshow station's
  \<^verbatim>\<open>nextSegment\<close> return, every \<^verbatim>\<open>isTrack\<close> flag is a boolean and differs from the
  flag of the segment before it; on a station without a previous segment (a new one, or
  one that \<^verbatim>\<open>getSyncedSegment\<close> has reset) the first segment is a track, so the flags
  are true, false, true, ... A station has no previous segment when it is constructed.
\<close>

theorem TalkshowStation_alternates:
  assumes "TalkshowStation_nextSegments es s = Inr (segments, s1)"
  shows "(\<forall>i. Suc i < length segments \<longrightarrow>
            isTrack (segments ! Suc i) \<noteq> isTrack (segments ! i)
            \<and> isTrack (segments ! i) \<noteq> None \<and> isTrack (segments ! Suc i) \<noteq> None)
     \<and> (prevSegment s = None \<longrightarrow> (\<forall>i. i < length segments \<longrightarrow> isTrack (segments ! i) = Some (even i)))
     \<and> prevSegment (TalkshowStation_constructor e0 g p groups) = None"
proof -
  have A: "isTrack (segments ! Suc i) \<noteq> isTrack (segments ! i)
            \<and> isTrack (segments ! i) \<noteq> None \<and> isTrack (segments ! Suc i) \<noteq> None"
    if "Suc i < length segments" for i
    using talkshow_flags[OF assms, of i] talkshow_flags[OF assms, of "Suc i"] that by auto
  have B: "isTrack (segments ! i) = Some (even i)" if "prevSegment s = None" "i < length segments" for i
    using talkshow_flags[OF assms that(2)] that(1) by simp
  have C: "prevSegment (TalkshowStation_constructor e0 g p groups) = None"
    by (simp add: TalkshowStation_constructor_def)
  show ?thesis using A B C by blast
qed

theorem TalkshowStation_alternates_witness:
  "\<exists>segs s1. TalkshowStation_nextSegments [example_env, example_env, example_env] example_talkshow
       = Inr (segs, s1)
     \<and> length segs = 3 \<and> prevSegment example_talkshow = None
     \<and> isTrack (segs ! 0) = Some True
     \<and> isTrack (segs ! 1) \<noteq> isTrack (segs ! 0)
     \<and> isTrack (segs ! 2) \<noteq> isTrack (segs ! 1)"
proof -
  obtain segs s1 where run:
    "TalkshowStation_nextSegments [example_env, example_env, example_env] example_talkshow
       = Inr (segs, s1)"
    and flags: "map isTrack segs = [Some True, Some False, Some True]"
    using example_talkshow_run by (elim exE conjE)
  have len: "length segs = 3" using arg_cong[OF flags, of length] by simp
  have prev: "prevSegment example_talkshow = None"
    by (simp add: example_talkshow_def TalkshowStation_constructor_def)
  note alt = TalkshowStation_alternates[OF run]
  have adj: "isTrack (segs ! Suc i) \<noteq> isTrack (segs ! i)" if "Suc i < length segs" for i
    using alt that by blast
  have "isTrack (segs ! 0) = Some True" using alt prev len by simp
  moreover have "isTrack (segs ! 1) \<noteq> isTrack (segs ! 0)"
    using adj[of 0] len by simp
  moreover have "isTrack (segs ! 2) \<noteq> isTrack (segs ! 1)"
    using adj[of 1] len by (simp add: numeral_2_eq_2)
  ultimately show ?thesis using run len prev by blast
qed

text \<open>
  Claim C8. In the segments that successive calls of the dynamic station's
  \<^verbatim>\<open>nextSegment\<close> return, a segment whose \<^verbatim>\<open>isTrack\<close> is not true is followed by a
  segment whose \<^verbatim>\<open>isTrack\<close> is true: a track follows every transition.
\<close>

theorem DynamicStation_track_follows_transition:
  assumes "DynamicStation_nextSegments es s = Inr (segments, s1)"
  shows "\<forall>i. Suc i < length segments \<longrightarrow> isTrack (segments ! i) \<noteq> Some True \<longrightarrow>
           isTrack (segments ! Suc i) = Some True"
  using dynamic_pairs[OF assms] by blast

theorem DynamicStation_track_follows_transition_witness:
  "\<exists>segs s1. DynamicStation_nextSegments [example_env, example_env, example_env, example_env]
         example_dynamic = Inr (segs, s1)
     \<and> length segs = 4 \<and> isTrack (segs ! 2) = Some False \<and> isTrack (segs ! 3) = Some True"
proof -
  obtain segs s1 where run:
    "DynamicStation_nextSegments [example_env, example_env, example_env, example_env]
         example_dynamic = Inr (segs, s1)"
    and flags: "map isTrack segs = [Some True, Some True, Some False, Some True]"
    using example_dynamic_run by (elim exE conjE)
  have len: "length segs = 4" using arg_cong[OF flags, of length] by simp
  have f2: "isTrack (segs ! 2) = Some False"
    using arg_cong[OF flags, of "\<lambda>xs. xs ! 2"] len by simp
  have "Suc 2 < length segs" using len by simp
  moreover have "isTrack (segs ! 2) \<noteq> Some True" using f2 by simp
  ultimately have "isTrack (segs ! Suc 2) = Some True"
    using DynamicStation_track_follows_transition[OF run] by blast
  then have "isTrack (segs ! 3) = Some True" by (simp add: numeral_3_eq_3)
  then show ?thesis using run len f2 by blast
qed

text \<open>
  Claim C9, evaluated. The first step of the example station returns the track
  \<^verbatim>\<open>t1.ogg\<close>; before the call no descriptor of the metadata's \<^verbatim>\<open>track\<close> group has a
  \<^verbatim>\<open>voiceOver\<close>, after it the descriptor of \<^verbatim>\<open>t1.ogg\<close> in the metadata has one.
\<close>

theorem DynamicStation_getRandomTrack_changes_metadata:
  "DynamicStation_nextSegment example_env example_dynamic =
     Inr (example_first_track, example_dynamic_after_track)
   \<and> map_option (map voiceOver) (fileGroups example_dynamic ''track'') = Some [None, None]
   \<and> map_option (map voiceOver) (fileGroups example_dynamic_after_track ''track'') =
       Some [None, Some \<lparr>path = ''data/rock/v2.ogg''\<rparr>]"
  by (intro conjI example_dynamic_step1)
    (simp_all add: example_dynamic_after_track_def example_dynamic_def
      DynamicStation_constructor_def example_dynamic_groups_def example_info_def)

theorem DynamicStation_getRandomTrack_changes_metadata_witness:
  "map_option (\<lambda>s. map_option (map voiceOver) (fileGroups s ''track''))
     (station_after (DynamicStation_nextSegment example_env example_dynamic)) =
       Some (Some [None, Some \<lparr>path = ''data/rock/v2.ogg''\<rparr>])"
  using DynamicStation_getRandomTrack_changes_metadata by (simp add: station_after_def)

text \<open>
  Claim C10. Over any sequence of calls of \<^verbatim>\<open>nextUniqueIndex\<close> on a new manager,
  the values returned for one key are those of a single pool, created from the
  \<^verbatim>\<open>sourceSize\<close> and \<^verbatim>\<open>dontRepeatFor\<close> of the first call with that key and drawn
  from with the random integers of all the calls with that key: the sizes and windows
  that later calls pass play no part, and every index returned is below the first
  \<^verbatim>\<open>sourceSize\<close>. A call on a key that has a pool returns the same whatever
  \<^verbatim>\<open>sourceSize\<close> and \<^verbatim>\<open>dontRepeatFor\<close> it is given.
\<close>

theorem nextUniqueIndex_first_call:
  assumes "find (\<lambda>c. fst c = ident) cs = Some (k0, n0, r0, d0)"
  shows "returned_for ident (fst (nextUniqueIndex_calls IndexDrawPoolManager_constructor cs)) =
           fst (IndexDrawPool_draws (IndexDrawPool_constructor n0 (min d0 (int n0 - 1)))
                  (integers_for ident cs))
     \<and> (\<forall>i. Some i \<in> set (returned_for ident
                  (fst (nextUniqueIndex_calls IndexDrawPoolManager_constructor cs))) \<longrightarrow> i < n0)
     \<and> (\<forall>m q n d n' d' r. m ident = Some q \<longrightarrow>
            nextUniqueIndex m ident n r d = nextUniqueIndex m ident n' r d')"
proof -
  define q0 where "q0 = IndexDrawPool_constructor n0 (min d0 (int n0 - 1))"
  have a: "returned_for ident (fst (nextUniqueIndex_calls IndexDrawPoolManager_constructor cs)) =
           fst (IndexDrawPool_draws q0 (integers_for ident cs))"
    unfolding q0_def
    using calls_absent[of IndexDrawPoolManager_constructor ident cs k0 n0 r0 d0] assms
    by (simp add: IndexDrawPoolManager_constructor_def)
  have inv: "pool_inv n0 q0" unfolding q0_def by (rule pool_inv_constructor)
  have b: "i < n0" if "Some i \<in> set (fst (IndexDrawPool_draws q0 (integers_for ident cs)))" for i
    using draws_bound[OF inv prod.collapse[symmetric] that] .
  have c: "nextUniqueIndex m ident n r d = nextUniqueIndex m ident n' r d'"
    if "m ident = Some q" for m q n d n' d' r
    using nextUniqueIndex_present[of m ident q] that by simp
  show ?thesis using a b c unfolding q0_def by metis
qed

lemma calls_example:
  "fst (IndexDrawPool_draws (IndexDrawPool_constructor 3 (min 8 (int 3 - 1)))
     (integers_for ''id'' [(''id'', 3, 5, 8), (''track'', 2, 1, 8), (''id'', 10, 7, 0), (''id'', 1, 9, 8)]))
   = [Some 2, Some 1, Some 0]"
  by code_simp

theorem nextUniqueIndex_first_call_witness:
  "find (\<lambda>c. fst c = ''id'') [(''id'', 3, 5, 8), (''track'', 2, 1, 8), (''id'', 10, 7, 0), (''id'', 1, 9, 8)]
     = Some (''id'', 3::nat, 5::nat, 8::int)
   \<and> returned_for ''id'' (fst (nextUniqueIndex_calls IndexDrawPoolManager_constructor
         [(''id'', 3, 5, 8), (''track'', 2, 1, 8), (''id'', 10, 7, 0), (''id'', 1, 9, 8)]))
     = [Some 2, Some 1, Some 0]"
proof -
  have f: "find (\<lambda>c. fst c = ''id'') [(''id'', 3, 5, 8), (''track'', 2, 1, 8), (''id'', 10, 7, 0), (''id'', 1, 9, 8)]
     = Some (''id'', 3::nat, 5::nat, 8::int)" by simp
  from nextUniqueIndex_first_call[OF f] show ?thesis
    using f calls_example by simp
qed

end
